theory Spec2Isabelle
  imports Main
begin

section \<open>Data model of the relationship graph (SchemaBuilder.js)\<close>

text \<open>
  Graph elements are the Cytoscape element objects the backend returns:
  \<^verbatim>\<open>{ data: { id, source, target, type, label, category, metadata }, id }\<close>.
  Every field the code reads with \<^verbatim>\<open>?.\<close> or \<^verbatim>\<open>||\<close> may be absent, so each
  is an \<open>option\<close>; \<open>None\<close> is JavaScript's \<^verbatim>\<open>undefined\<close>/\<^verbatim>\<open>null\<close>.
  Identifiers are strings. A \<^verbatim>\<open>null\<close> array entry behaves in all the code below
  like an element with neither \<^verbatim>\<open>data\<close> nor \<^verbatim>\<open>id\<close> and is represented by it.
\<close>

record metadata =
  isRelated :: "bool option"
  isOrphan :: "bool option"

record elem_data =
  data_id :: "string option"
  source :: "string option"
  target :: "string option"
  data_type :: "string option"
  label :: "string option"
  category :: "string option"
  metadata :: "metadata option"

record element =
  data :: "elem_data option"
  el_id :: "string option"

text \<open>
  A fetched graph and the session's \<^verbatim>\<open>extraGraph\<close>: the code reads both as
  \<^verbatim>\<open>(g.nodes || [])\<close> and \<^verbatim>\<open>(g.edges || [])\<close>.
\<close>

record graph =
  nodes :: "element list option"
  edges :: "element list option"

definition orEmpty :: "'a list option \<Rightarrow> 'a list" where
  "orEmpty a = (case a of None \<Rightarrow> [] | Some xs \<Rightarrow> xs)"

text \<open>JavaScript truthiness of a value that is a string or absent.\<close>

definition truthy :: "string option \<Rightarrow> bool" where
  "truthy v = (case v of None \<Rightarrow> False | Some s \<Rightarrow> s \<noteq> [])"

text \<open>\<^verbatim>\<open>el?.data?.id\<close>\<close>

definition dataId :: "element \<Rightarrow> string option" where
  "dataId el = (case data el of None \<Rightarrow> None | Some d \<Rightarrow> data_id d)"

text \<open>\<^verbatim>\<open>el?.data?.id || el?.id\<close>\<close>

definition elemId :: "element \<Rightarrow> string option" where
  "elemId el = (if truthy (dataId el) then dataId el else el_id el)"

section \<open>Graph merger: \<^verbatim>\<open>dedupeById\<close>\<close>

text \<open>
  \<^verbatim>\<open>
  const dedupeById = (arr) => {
    const map = new Map();
    for (const el of arr || []) {
      const id = el?.data?.id || el?.id;
      if (!id) continue;
      if (!map.has(id)) map.set(id, el);
    }
    return Array.from(map.values());
  };
  \<close>
  The \<^verbatim>\<open>Map\<close> is an association list in insertion order; a new key is appended.
\<close>

fun dedupeLoop ::
  "element list \<Rightarrow> (string option \<times> element) list \<Rightarrow> (string option \<times> element) list" where
  "dedupeLoop [] m = m"
| "dedupeLoop (el # arr) m =
     (let i = elemId el in
      if \<not> truthy i then dedupeLoop arr m
      else if map_of m i = None then dedupeLoop arr (m @ [(i, el)])
      else dedupeLoop arr m)"

definition dedupeById :: "element list \<Rightarrow> element list" where
  "dedupeById arr = map snd (dedupeLoop arr [])"

text \<open>
  The state updater of both expansions,
  \<^verbatim>\<open>prev => ({ nodes: dedupeById([...(prev.nodes || []), ...nodes]),
             edges: dedupeById([...(prev.edges || []), ...edges]) })\<close>.
\<close>

definition mergeInto :: "graph \<Rightarrow> element list \<Rightarrow> element list \<Rightarrow> graph" where
  "mergeInto prev ns es =
     \<lparr>nodes = Some (dedupeById (orEmpty (nodes prev) @ ns)),
      edges = Some (dedupeById (orEmpty (edges prev) @ es))\<rparr>"

subsection \<open>A closed form of the loop\<close>

text \<open>The elements with a truthy id that no earlier element and no member of \<open>S\<close> has.\<close>

fun firstSeen :: "string option set \<Rightarrow> element list \<Rightarrow> element list" where
  "firstSeen S [] = []"
| "firstSeen S (el # arr) =
     (if truthy (elemId el) \<and> elemId el \<notin> S
      then el # firstSeen (insert (elemId el) S) arr
      else firstSeen S arr)"

definition truthyIds :: "element list \<Rightarrow> string option set" where
  "truthyIds arr = {i \<in> elemId ` set arr. truthy i}"

section \<open>Relationship classifier\<close>

text \<open>
  \<^verbatim>\<open>classifyRelationship\<close> returns one of the four strings \<^verbatim>\<open>'direct'\<close>,
  \<^verbatim>\<open>'indirect'\<close>, \<^verbatim>\<open>'metadata'\<close>, \<^verbatim>\<open>'unknown'\<close>; \<^verbatim>\<open>Array.includes\<close> of an
  absent type is false in all three tables.
\<close>

datatype level = Direct | Indirect | Metadata | Unknown

definition directTypes :: "string list" where
  "directTypes = [''writes_to'', ''reads_from'', ''imports_to_de'', ''updates_de'',
     ''journey_entry_source'', ''filters_to'', ''filters_from'']"

definition indirectTypes :: "string list" where
  "indirectTypes = [''contains_query'', ''executes_query'', ''triggers_automation'',
     ''executes_activity'', ''next_step'']"

definition metadataTypes :: "string list" where
  "metadataTypes = [''filters_de'', ''uses_in_decision'', ''provides_data_to'']"

definition classifyRelationship :: "string option \<Rightarrow> level" where
  "classifyRelationship relationshipType =
     (case relationshipType of
        None \<Rightarrow> Unknown
      | Some t \<Rightarrow>
          if t \<in> set directTypes then Direct
          else if t \<in> set indirectTypes then Indirect
          else if t \<in> set metadataTypes then Metadata
          else Unknown)"

section \<open>Graph assembly: \<^verbatim>\<open>updateGraph\<close>\<close>

datatype error = TypeError | FetchError string

text \<open>
  What the code writes with \<^verbatim>\<open>console.warn\<close> and \<^verbatim>\<open>console.error\<close>, and the
  summary lines of the two expansions.
\<close>

datatype log_entry =
    InvalidEdge "string option" "string option"
  | ExpandAdded nat nat string
  | ExpandFailed error
  | ExpandAllNodeFailed string error
  | ExpandAllFinished int
  | ExpandAllError error

record inbound_conn =
  in_edgeId :: "string option"
  sourceId :: "string option"
  in_type :: "string option"
  in_label :: "string option"
  in_level :: level

record outbound_conn =
  out_edgeId :: "string option"
  targetId :: "string option"
  out_type :: "string option"
  out_label :: "string option"
  out_level :: level

record connection =
  node :: element
  inbound :: "inbound_conn list"
  outbound :: "outbound_conn list"
  hasDirectConnections :: bool
  hasIndirectConnections :: bool
  hasMetadataConnections :: bool
  totalConnections :: nat

record edgeInfo =
  edge :: element
  edge_level :: level
  isDirect :: bool
  isIndirect :: bool
  isMetadata :: bool

type_synonym connections = "(string option \<times> connection) list"

text \<open>
  The selection \<^verbatim>\<open>selectedObjects\<close>: category to object id to flag, as
  \<^verbatim>\<open>handleObjectSelect\<close> builds it.
\<close>

type_synonym selection = "(string \<times> (string \<times> bool) list) list"

definition hasActiveSelections :: "selection \<Rightarrow> bool" where
  "hasActiveSelections selectedObjects =
     (selectedObjects \<noteq> [] \<and>
      list_ex (\<lambda>categoryObj. list_ex (\<lambda>selected. selected) (map snd categoryObj))
        (map snd selectedObjects))"

text \<open>
  \<^verbatim>\<open>loadGraphData\<close>: the fetch of the base graph; a failure is caught and gives
  the empty graph.
\<close>

definition loadGraphData ::
  "(selection \<Rightarrow> error + graph) \<Rightarrow> bool \<Rightarrow> selection \<Rightarrow> graph" where
  "loadGraphData fetchGraphData showAllObjects selectedObjects =
     (case fetchGraphData (if showAllObjects then [] else selectedObjects) of
        Inl e \<Rightarrow> \<lparr>nodes = Some [], edges = Some []\<rparr>
      | Inr d \<Rightarrow> d)"

record mergedGraph =
  mergedNodes :: "element list"
  mergedEdges :: "element list"

text \<open>
  \<^verbatim>\<open>
  // For focused selections, use only backend data (no merging with extraGraph)
  // For general browsing, merge in expanded data
  const mergedGraphData = hasActiveSelections ? {
    nodes: baseGraphData.nodes || [],
    edges: baseGraphData.edges || []
  } : {
    nodes: dedupeById([...(baseGraphData.nodes || []), ...(extraGraph.nodes || [])]),
    edges: dedupeById([...(baseGraphData.edges || []), ...(extraGraph.edges || [])])
  };
  \<close>
\<close>

definition mergedGraphData :: "selection \<Rightarrow> graph \<Rightarrow> graph \<Rightarrow> mergedGraph" where
  "mergedGraphData selectedObjects baseGraphData extraGraph =
     (if hasActiveSelections selectedObjects
      then \<lparr>mergedNodes = orEmpty (nodes baseGraphData),
            mergedEdges = orEmpty (edges baseGraphData)\<rparr>
      else \<lparr>mergedNodes = dedupeById (orEmpty (nodes baseGraphData) @ orEmpty (nodes extraGraph)),
            mergedEdges = dedupeById (orEmpty (edges baseGraphData) @ orEmpty (edges extraGraph))\<rparr>)"

subsection \<open>The connection map\<close>

text \<open>
  \<^verbatim>\<open>nodeConnections\<close> is a \<^verbatim>\<open>Map\<close> from \<^verbatim>\<open>node.data.id\<close> (which may be
  \<^verbatim>\<open>undefined\<close>) to a connection object: an association list in insertion order.
  \<^verbatim>\<open>Map.set\<close> on a present key replaces the value in place, on a new key appends.
\<close>

fun mapSet :: "'k \<Rightarrow> 'v \<Rightarrow> ('k \<times> 'v) list \<Rightarrow> ('k \<times> 'v) list" where
  "mapSet k v [] = [(k, v)]"
| "mapSet k v (p # ps) = (if fst p = k then (k, v) # ps else p # mapSet k v ps)"

definition emptyConnection :: "element \<Rightarrow> connection" where
  "emptyConnection n =
     \<lparr>node = n, inbound = [], outbound = [],
      hasDirectConnections = False, hasIndirectConnections = False,
      hasMetadataConnections = False, totalConnections = 0\<rparr>"

text \<open>
  \<^verbatim>\<open>mergedGraphData.nodes.forEach(node => { nodeConnections.set(node.data.id, {...}) })\<close>;
  reading \<^verbatim>\<open>node.data.id\<close> of a node without \<^verbatim>\<open>data\<close> throws a TypeError.
\<close>

fun initConnections :: "element list \<Rightarrow> connections \<Rightarrow> error + connections" where
  "initConnections [] m = Inr m"
| "initConnections (n # ns) m =
     (case data n of
        None \<Rightarrow> Inl TypeError
      | Some d \<Rightarrow> initConnections ns (mapSet (data_id d) (emptyConnection n) m))"

text \<open>
  The connection objects are shared and mutated in place
  (\<^verbatim>\<open>sourceConn.outbound.push(...)\<close>, \<^verbatim>\<open>targetConn.totalConnections++\<close>): the map
  is the store, and mutating the object of key \<open>k\<close> rewrites the entry of \<open>k\<close>. When an
  edge's source and target are the same node, both mutations fall on one object.
\<close>

definition mutateConn :: "string option \<Rightarrow> (connection \<Rightarrow> connection) \<Rightarrow> connections \<Rightarrow> connections" where
  "mutateConn k f m = map (\<lambda>(k', c). if k' = k then (k', f c) else (k', c)) m"

definition markLevel :: "level \<Rightarrow> connection \<Rightarrow> connection" where
  "markLevel lv c =
     (case lv of
        Direct \<Rightarrow> c\<lparr>hasDirectConnections := True\<rparr>
      | Indirect \<Rightarrow> c\<lparr>hasIndirectConnections := True\<rparr>
      | Metadata \<Rightarrow> c\<lparr>hasMetadataConnections := True\<rparr>
      | Unknown \<Rightarrow> c)"

definition addOutbound :: "elem_data \<Rightarrow> level \<Rightarrow> connection \<Rightarrow> connection" where
  "addOutbound d lv c =
     (markLevel lv c)\<lparr>
        outbound := outbound c @
          [\<lparr>out_edgeId = data_id d, targetId = target d, out_type = data_type d,
            out_label = label d, out_level = lv\<rparr>],
        totalConnections := totalConnections c + 1\<rparr>"

definition addInbound :: "elem_data \<Rightarrow> level \<Rightarrow> connection \<Rightarrow> connection" where
  "addInbound d lv c =
     (markLevel lv c)\<lparr>
        inbound := inbound c @
          [\<lparr>in_edgeId = data_id d, sourceId = source d, in_type = data_type d,
            in_label = label d, in_level = lv\<rparr>],
        totalConnections := totalConnections c + 1\<rparr>"

text \<open>\<^verbatim>\<open>String.prototype.includes\<close>\<close>

fun stringIncludes :: "string \<Rightarrow> string \<Rightarrow> bool" where
  "stringIncludes [] sub = (sub = [])"
| "stringIncludes (c # cs) sub = (take (length sub) (c # cs) = sub \<or> stringIncludes cs sub)"

text \<open>
  The debug test
  \<^verbatim>\<open>edge.data.source.includes('FilterActivity') || edge.data.target.includes('FilterActivity')\<close>
  on an included edge: calling \<^verbatim>\<open>includes\<close> on an absent source, or on an absent
  target once the source has not matched, throws a TypeError.
\<close>

definition filterActivityDebug :: "elem_data \<Rightarrow> error + bool" where
  "filterActivityDebug d =
     (case source d of
        None \<Rightarrow> Inl TypeError
      | Some s \<Rightarrow>
          if stringIncludes s ''FilterActivity'' then Inr True
          else (case target d of
                  None \<Rightarrow> Inl TypeError
                | Some t \<Rightarrow> Inr (stringIncludes t ''FilterActivity'')))"

record index_state =
  nodeConnections :: connections
  validEdges :: "edgeInfo list"
  warnings :: "log_entry list"

definition mkEdgeInfo :: "element \<Rightarrow> level \<Rightarrow> edgeInfo" where
  "mkEdgeInfo e lv =
     \<lparr>edge = e, edge_level = lv, isDirect = (lv = Direct),
      isIndirect = (lv = Indirect), isMetadata = (lv = Metadata)\<rparr>"

text \<open>
  The body of \<^verbatim>\<open>mergedGraphData.edges.forEach(edge => {...})\<close>. An edge whose
  source or target has no connection object is warned about and skipped
  (\<^verbatim>\<open>return\<close>); \<^verbatim>\<open>includeEdge\<close> is always true (its only reset is under
  \<^verbatim>\<open>if (false && ...)\<close>).
\<close>

definition processEdge :: "element \<Rightarrow> index_state \<Rightarrow> error + index_state" where
  "processEdge e st =
     (case data e of
        None \<Rightarrow> Inl TypeError
      | Some d \<Rightarrow>
          if map_of (nodeConnections st) (source d) = None
             \<or> map_of (nodeConnections st) (target d) = None
          then Inr (st\<lparr>warnings := warnings st @ [InvalidEdge (source d) (target d)]\<rparr>)
          else
            (let relationshipLevel = classifyRelationship (data_type d) in
             case filterActivityDebug d of
               Inl err \<Rightarrow> Inl err
             | Inr dbg \<Rightarrow>
                 Inr (st\<lparr>
                   validEdges := validEdges st @ [mkEdgeInfo e relationshipLevel],
                   nodeConnections :=
                     mutateConn (target d) (addInbound d relationshipLevel)
                       (mutateConn (source d) (addOutbound d relationshipLevel)
                          (nodeConnections st))\<rparr>)))"

fun processEdges :: "element list \<Rightarrow> index_state \<Rightarrow> error + index_state" where
  "processEdges [] st = Inr st"
| "processEdges (e # es) st =
     (case processEdge e st of
        Inl err \<Rightarrow> Inl err
      | Inr st' \<Rightarrow> processEdges es st')"

subsection \<open>Connected and orphan nodes\<close>

text \<open>
  \<^verbatim>\<open>nodeConnections.forEach((connection, nodeId) => { ... })\<close>:
  \<^verbatim>\<open>connection.totalConnections > 0\<close> puts the node of the connection object
  into \<^verbatim>\<open>connectedNodes\<close>, otherwise into \<^verbatim>\<open>orphanNodes\<close>.
\<close>

definition connectedOf :: "connections \<Rightarrow> element list" where
  "connectedOf m = map (node \<circ> snd) (filter (\<lambda>(k, c). totalConnections c > 0) m)"

definition orphansOf :: "connections \<Rightarrow> element list" where
  "orphansOf m = map (node \<circ> snd) (filter (\<lambda>(k, c). \<not> totalConnections c > 0) m)"

text \<open>
  \<^verbatim>\<open>({ ...node, data: { ...node.data,
       metadata: { ...node.data.metadata, isOrphan: true } } })\<close>
\<close>

definition styleOrphan :: "element \<Rightarrow> element" where
  "styleOrphan n =
     n\<lparr>data := Some
        ((case data n of
            None \<Rightarrow> \<lparr>data_id = None, source = None, target = None, data_type = None,
                      label = None, category = None, metadata = None\<rparr>
          | Some d \<Rightarrow> d)
         \<lparr>metadata := Some
            ((case (case data n of None \<Rightarrow> None | Some d \<Rightarrow> metadata d) of
                None \<Rightarrow> \<lparr>isRelated = None, isOrphan = None\<rparr>
              | Some md \<Rightarrow> md)\<lparr>isOrphan := Some True\<rparr>)\<rparr>)\<rparr>"

subsection \<open>Selection highlighting\<close>

text \<open>
  \<^verbatim>\<open>
  if (selectedNodeId) {
    highlightedNodes.add(selectedNodeId);
    const selectedConnection = nodeConnections.get(selectedNodeId);
    if (selectedConnection) {
      selectedConnection.inbound.forEach(conn => {
        highlightedNodes.add(conn.sourceId); highlightedEdges.add(conn.edgeId); });
      selectedConnection.outbound.forEach(conn => {
        highlightedNodes.add(conn.targetId); highlightedEdges.add(conn.edgeId); });
    }
  }
  \<close>
\<close>

definition highlightNodes :: "string option \<Rightarrow> connections \<Rightarrow> string option set" where
  "highlightNodes selectedNodeId m =
     (if truthy selectedNodeId then
        (case map_of m selectedNodeId of
           None \<Rightarrow> {selectedNodeId}
         | Some c \<Rightarrow> insert selectedNodeId
             (set (map sourceId (inbound c)) \<union> set (map targetId (outbound c))))
      else {})"

definition highlightEdges :: "string option \<Rightarrow> connections \<Rightarrow> string option set" where
  "highlightEdges selectedNodeId m =
     (if truthy selectedNodeId then
        (case map_of m selectedNodeId of
           None \<Rightarrow> {}
         | Some c \<Rightarrow> set (map in_edgeId (inbound c)) \<union> set (map out_edgeId (outbound c)))
      else {})"

subsection \<open>The assembly pass\<close>

record assembly =
  merged :: mergedGraph
  connectionMap :: connections
  includedEdges :: "edgeInfo list"
  invalidEdgeWarnings :: "log_entry list"
  connectedNodes :: "element list"
  orphanNodes :: "element list"
  finalNodes :: "element list"
  highlightedNodes :: "string option set"
  highlightedEdges :: "string option set"

text \<open>
  The pass of \<^verbatim>\<open>updateGraph\<close> over a merged graph, up to the highlight sets: it
  builds the connection map, processes the edges, separates connected from orphan
  nodes, appends the tagged orphans (\<^verbatim>\<open>finalNodes = [...connectedNodes,
  ...styledOrphanNodes]\<close>, under \<^verbatim>\<open>if (true)\<close>) and computes the highlight sets.
  A TypeError thrown on the way rejects the whole call. The styling of the final
  nodes and included edges for the renderer, which follows in the source, is outside
  this development.
\<close>

definition assembleGraph :: "string option \<Rightarrow> mergedGraph \<Rightarrow> error + assembly" where
  "assembleGraph selectedNodeId g =
     (case initConnections (mergedNodes g) [] of
        Inl err \<Rightarrow> Inl err
      | Inr m0 \<Rightarrow>
          (case processEdges (mergedEdges g)
                  \<lparr>nodeConnections = m0, validEdges = [], warnings = []\<rparr> of
             Inl err \<Rightarrow> Inl err
           | Inr st \<Rightarrow>
               Inr \<lparr>merged = g,
                    connectionMap = nodeConnections st,
                    includedEdges = validEdges st,
                    invalidEdgeWarnings = warnings st,
                    connectedNodes = connectedOf (nodeConnections st),
                    orphanNodes = orphansOf (nodeConnections st),
                    finalNodes = connectedOf (nodeConnections st)
                                 @ map styleOrphan (orphansOf (nodeConnections st)),
                    highlightedNodes = highlightNodes selectedNodeId (nodeConnections st),
                    highlightedEdges = highlightEdges selectedNodeId (nodeConnections st)\<rparr>))"

text \<open>
  What one render's callbacks close over: the selection, the browsing mode, the
  selected node and that render's value of the \<^verbatim>\<open>extraGraph\<close> state.
\<close>

record closure =
  selectedObjects :: selection
  showAllObjects :: bool
  selectedNodeId :: "string option"
  extraGraph :: graph

text \<open>
  \<^verbatim>\<open>updateGraph\<close>: \<^verbatim>\<open>const baseGraphData = await loadGraphData()\<close>, then the
  merged graph, then the pass over it. The fetch of the base graph is a parameter.
\<close>

definition updateGraph :: "(selection \<Rightarrow> error + graph) \<Rightarrow> closure \<Rightarrow> error + assembly" where
  "updateGraph fetchGraphData cl =
     assembleGraph (selectedNodeId cl)
       (mergedGraphData (selectedObjects cl)
          (loadGraphData fetchGraphData (showAllObjects cl) (selectedObjects cl))
          (extraGraph cl))"

section \<open>Expansion engine\<close>

text \<open>
  The component state the expansions write: the \<^verbatim>\<open>extraGraph\<close> state (read
  by the updater as \<^verbatim>\<open>prev\<close>), the \<^verbatim>\<open>isExpanding\<close> flag, the console, and the
  batches of \<^verbatim>\<open>fetchExpandDependencies\<close> requests issued, one list per
  \<^verbatim>\<open>await\<close>.
\<close>

record session =
  extraGraphState :: graph
  isExpanding :: bool
  console :: "log_entry list"
  requests :: "string list list"

text \<open>
  \<^verbatim>\<open>
  const expandSelectedNode = useCallback(async () => {
    if (!selectedNodeId) return;
    try {
      setIsExpanding(true);
      const data = await fetchExpandDependencies(selectedNodeId);
      const newNodes = dedupeById([...(data.nodes || [])]);
      const newEdges = dedupeById([...(data.edges || [])]);
      setExtraGraph(prev => ({ ... }));
      console.log(`[Expand] Added ${newNodes.length} nodes and ${newEdges.length} edges ...`);
      await updateGraph();
    } catch (e) {
      console.error('[Expand] Failed to expand dependencies:', e);
    } finally {
      setIsExpanding(false);
    }
  }, [selectedNodeId, updateGraph]);
  \<close>
  The fetch is a parameter: \<open>Inl\<close> is a rejected promise. \<open>updateGraphOutcome\<close> is
  the outcome of awaiting the \<^verbatim>\<open>updateGraph\<close> callback the render passed in:
  \<open>None\<close> when it resolves, \<open>Some e\<close> when it rejects with \<open>e\<close>. The callback
  rebuilds the rendered elements and writes none of the fields of \<open>session\<close>.
\<close>

definition expandSelectedNode ::
  "(string \<Rightarrow> error + graph) \<Rightarrow> error option \<Rightarrow> closure \<Rightarrow> session \<Rightarrow> session" where
  "expandSelectedNode fetchExpandDependencies updateGraphOutcome cl st =
     (case selectedNodeId cl of
        None \<Rightarrow> st
      | Some nodeId \<Rightarrow>
          if nodeId = [] then st
          else
            (case fetchExpandDependencies nodeId of
               Inl e \<Rightarrow>
                 st\<lparr>requests := requests st @ [ [nodeId] ],
                    console := console st @ [ExpandFailed e],
                    isExpanding := False\<rparr>
             | Inr d \<Rightarrow>
                 (let newNodes = dedupeById (orEmpty (nodes d));
                      newEdges = dedupeById (orEmpty (edges d));
                      st1 = st\<lparr>requests := requests st @ [ [nodeId] ],
                               extraGraphState := mergeInto (extraGraphState st) newNodes newEdges,
                               console := console st @
                                 [ExpandAdded (length newNodes) (length newEdges) nodeId]\<rparr>
                  in case updateGraphOutcome of
                       None \<Rightarrow> st1\<lparr>isExpanding := False\<rparr>
                     | Some e \<Rightarrow>
                         st1\<lparr>console := console st1 @ [ExpandFailed e],
                             isExpanding := False\<rparr>)))"

subsection \<open>Recursive expansion\<close>

text \<open>
  The locals of the traversal: the \<^verbatim>\<open>visited\<close> set, the \<^verbatim>\<open>nextFrontier\<close> set
  of the current level (a \<^verbatim>\<open>Set\<close>, kept in insertion order), and the component
  state.
\<close>

record traversal =
  visited :: "string option set"
  nextFrontier :: "string list"
  sess :: session

text \<open>\<^verbatim>\<open>Set.add\<close> on an insertion-ordered set.\<close>

definition setAdd :: "'a \<Rightarrow> 'a list \<Rightarrow> 'a list" where
  "setAdd x xs = (if x \<in> set xs then xs else xs @ [x])"

text \<open>
  \<^verbatim>\<open>
  nodes.forEach(n => {
    const id = n?.data?.id;
    if (id && !visited.has(id)) { visited.add(id); nextFrontier.add(id); }
  });
  \<close>
\<close>

definition visitNode :: "element \<Rightarrow> traversal \<Rightarrow> traversal" where
  "visitNode n tr =
     (case dataId n of
        None \<Rightarrow> tr
      | Some i \<Rightarrow>
          if i \<noteq> [] \<and> Some i \<notin> visited tr
          then tr\<lparr>visited := insert (Some i) (visited tr),
                  nextFrontier := setAdd i (nextFrontier tr)\<rparr>
          else tr)"

text \<open>
  The callback run for one frontier node once its fetch has settled:
  \<^verbatim>\<open>
  try {
    const res = await fetchExpandDependencies(nodeId);
    const nodes = res.nodes || [];
    const edges = res.edges || [];
    setExtraGraph(prev => ({ ... }));
    nodes.forEach(...);
  } catch (err) {
    console.warn('[Expand-All] Failed expanding node', nodeId, err);
  }
  \<close>
\<close>

definition expandNode :: "(string \<Rightarrow> error + graph) \<Rightarrow> string \<Rightarrow> traversal \<Rightarrow> traversal" where
  "expandNode fetchExpandDependencies nodeId tr =
     (case fetchExpandDependencies nodeId of
        Inl err \<Rightarrow>
          tr\<lparr>sess := (sess tr)\<lparr>console := console (sess tr) @ [ExpandAllNodeFailed nodeId err]\<rparr>\<rparr>
      | Inr res \<Rightarrow>
          foldl (\<lambda>t n. visitNode n t)
            (tr\<lparr>sess := (sess tr)\<lparr>extraGraphState :=
                 mergeInto (extraGraphState (sess tr)) (orEmpty (nodes res)) (orEmpty (edges res))\<rparr>\<rparr>)
            (orEmpty (nodes res)))"

text \<open>
  One level: \<^verbatim>\<open>const nextFrontier = new Set(); await Promise.all(frontier.map(async
  (nodeId) => {...}))\<close>. All fetches of the level are issued together (one batch of
  requests); the callbacks then run one at a time, each when its fetch has settled.
  The parameter \<open>settle\<close> gives, for a frontier, the order in which its fetches
  settle (a rearrangement of the frontier; the identity when they settle in the order
  they were issued).
\<close>

definition expandLevel ::
  "(string \<Rightarrow> error + graph) \<Rightarrow> (string list \<Rightarrow> string list) \<Rightarrow> string list
   \<Rightarrow> traversal \<Rightarrow> traversal" where
  "expandLevel fetchExpandDependencies settle frontier tr =
     foldl (\<lambda>t nodeId. expandNode fetchExpandDependencies nodeId t)
       (tr\<lparr>nextFrontier := [],
           sess := (sess tr)\<lparr>requests := requests (sess tr) @ [frontier]\<rparr>\<rparr>)
       (settle frontier)"

text \<open>
  \<^verbatim>\<open>
  while (frontier.length && depth < maxDepth) {
    ...
    frontier = Array.from(nextFrontier);
    depth += 1;
  }
  \<close>
  The result holds the final values of \<^verbatim>\<open>frontier\<close> and \<^verbatim>\<open>depth\<close>.
\<close>

function expandLoop ::
  "(string \<Rightarrow> error + graph) \<Rightarrow> (string list \<Rightarrow> string list) \<Rightarrow> int \<Rightarrow> string list
   \<Rightarrow> int \<Rightarrow> traversal \<Rightarrow> string list \<times> int \<times> traversal" where
  "expandLoop fetchExpandDependencies settle maxDepth frontier depth tr =
     (if frontier \<noteq> [] \<and> depth < maxDepth
      then expandLoop fetchExpandDependencies settle maxDepth
             (nextFrontier (expandLevel fetchExpandDependencies settle frontier tr))
             (depth + 1)
             (expandLevel fetchExpandDependencies settle frontier tr)
      else (frontier, depth, tr))"
  by pat_completeness auto
termination
  by (relation "measure (\<lambda>(f, settle, maxDepth, frontier, depth, tr). nat (maxDepth - depth))") auto

declare expandLoop.simps [simp del]

text \<open>
  The traversal of \<^verbatim>\<open>expandSelectedNodeRecursively\<close> from \<^verbatim>\<open>setIsExpanding(true)\<close>
  to the end of the loop:
  \<^verbatim>\<open>
  const visited = new Set((extraGraph.nodes || []).map(n => n?.data?.id).filter(Boolean));
  let frontier = [selectedNodeId];
  let depth = 0;
  \<close>
  \<^verbatim>\<open>extraGraph\<close> here is the closure's value; the updater merges into the state.
\<close>

definition expandTraversal ::
  "(string \<Rightarrow> error + graph) \<Rightarrow> (string list \<Rightarrow> string list) \<Rightarrow> closure \<Rightarrow> int
   \<Rightarrow> string \<Rightarrow> session \<Rightarrow> string list \<times> int \<times> traversal" where
  "expandTraversal fetchExpandDependencies settle cl maxDepth nodeId st =
     expandLoop fetchExpandDependencies settle maxDepth [nodeId] 0
       \<lparr>visited = set (filter truthy (map dataId (orEmpty (nodes (extraGraph cl))))),
        nextFrontier = [],
        sess = st\<lparr>isExpanding := True\<rparr>\<rparr>"

text \<open>
  \<^verbatim>\<open>
  const expandSelectedNodeRecursively = useCallback(async (maxDepth = 3) => {
    if (!selectedNodeId) return;
    setIsExpanding(true);
    try {
      ... the traversal ...
      await updateGraph();
      console.log(`[Expand-All] Finished recursive expansion up to depth ${depth}`);
    } catch (err) {
      console.error('[Expand-All] Error:', err);
    } finally {
      setIsExpanding(false);
    }
  }, [selectedNodeId, extraGraph, updateGraph]);
  \<close>
\<close>

definition expandSelectedNodeRecursively ::
  "(string \<Rightarrow> error + graph) \<Rightarrow> (string list \<Rightarrow> string list) \<Rightarrow> error option \<Rightarrow> closure
   \<Rightarrow> int option \<Rightarrow> session \<Rightarrow> session" where
  "expandSelectedNodeRecursively fetchExpandDependencies settle updateGraphOutcome cl maxDepth st =
     (case selectedNodeId cl of
        None \<Rightarrow> st
      | Some nodeId \<Rightarrow>
          if nodeId = [] then st
          else
            (case expandTraversal fetchExpandDependencies settle cl
                    (case maxDepth of None \<Rightarrow> 3 | Some d \<Rightarrow> d) nodeId st of
               (frontier, depth, tr) \<Rightarrow>
                 (case updateGraphOutcome of
                    None \<Rightarrow>
                      (sess tr)\<lparr>console := console (sess tr) @ [ExpandAllFinished depth],
                                isExpanding := False\<rparr>
                  | Some e \<Rightarrow>
                      (sess tr)\<lparr>console := console (sess tr) @ [ExpandAllError e],
                                isExpanding := False\<rparr>)))"

text \<open>\<^verbatim>\<open>resetExpansions\<close>: \<^verbatim>\<open>setExtraGraph({ nodes: [], edges: [] })\<close>.\<close>

definition resetExpansions :: "session \<Rightarrow> session" where
  "resetExpansions st = st\<lparr>extraGraphState := \<lparr>nodes = Some [], edges = Some []\<rparr>\<rparr>"

section \<open>Sample data\<close>

definition sampleLabelled :: "string \<Rightarrow> string \<Rightarrow> element" where
  "sampleLabelled i l =
     \<lparr>data = Some \<lparr>data_id = Some i, source = None, target = None, data_type = None,
                   label = Some l, category = None, metadata = None\<rparr>,
      el_id = None\<rparr>"

definition sampleNode :: "string \<Rightarrow> element" where
  "sampleNode i = sampleLabelled i i"

definition sampleEdge :: "string \<Rightarrow> string \<Rightarrow> string \<Rightarrow> string \<Rightarrow> element" where
  "sampleEdge i s t ty =
     \<lparr>data = Some \<lparr>data_id = Some i, source = Some s, target = Some t, data_type = Some ty,
                   label = None, category = None, metadata = None\<rparr>,
      el_id = None\<rparr>"

definition emptyGraph :: graph where
  "emptyGraph = \<lparr>nodes = Some [], edges = Some []\<rparr>"

definition emptySession :: session where
  "emptySession = \<lparr>extraGraphState = emptyGraph, isExpanding = False, console = [], requests = []\<rparr>"

text \<open>The expansion responses of the scenario: the fetch for A returns B, the fetch for B returns C.\<close>

definition fetchChain :: "string \<Rightarrow> error + graph" where
  "fetchChain nodeId =
     (if nodeId = ''A'' then Inr \<lparr>nodes = Some [sampleNode ''B''], edges = Some [sampleEdge ''e1'' ''A'' ''B'' ''writes_to'']\<rparr>
      else if nodeId = ''B'' then Inr \<lparr>nodes = Some [sampleNode ''C''], edges = Some [sampleEdge ''e2'' ''B'' ''C'' ''writes_to'']\<rparr>
      else Inr emptyGraph)"

text \<open>The fetches of a level settling in the order they were issued.\<close>

definition inIssueOrder :: "string list \<Rightarrow> string list" where
  "inIssueOrder frontier = frontier"

definition browsing :: "string option \<Rightarrow> graph \<Rightarrow> closure" where
  "browsing sel g = \<lparr>selectedObjects = [], showAllObjects = True, selectedNodeId = sel, extraGraph = g\<rparr>"

definition scenarioNodes :: "element list" where
  "scenarioNodes = [sampleNode ''A'', sampleNode ''B'', sampleNode ''C'', sampleNode ''D'']"

definition scenarioEdges :: "element list" where
  "scenarioEdges = [sampleEdge ''e1'' ''A'' ''B'' ''writes_to'',
                    sampleEdge ''e2'' ''C'' ''A'' ''uses_in_decision'']"

definition scenarioGraph :: mergedGraph where
  "scenarioGraph = \<lparr>mergedNodes = scenarioNodes, mergedEdges = scenarioEdges\<rparr>"

definition focusedSelection :: selection where
  "focusedSelection = [(''Data Extensions'', [(''de-1'', True)])]"

definition fetchBaseA :: "selection \<Rightarrow> error + graph" where
  "fetchBaseA sel = Inr \<lparr>nodes = Some [sampleNode ''A''], edges = Some []\<rparr>"

text \<open>A base response in which two nodes carry the same \<^verbatim>\<open>data.id\<close>.\<close>

definition fetchBaseDuplicate :: "selection \<Rightarrow> error + graph" where
  "fetchBaseDuplicate sel =
     Inr \<lparr>nodes = Some [sampleLabelled ''X'' ''first'', sampleNode ''Y'',
                          sampleLabelled ''X'' ''second''],
          edges = Some []\<rparr>"

definition focusedClosure :: closure where
  "focusedClosure =
     \<lparr>selectedObjects = focusedSelection, showAllObjects = False, selectedNodeId = Some ''A'',
      extraGraph = \<lparr>nodes = Some [sampleNode ''B''], edges = Some []\<rparr>\<rparr>"

text \<open>The same chain when each response also holds the expanded node itself.\<close>

definition fetchChainSelf :: "string \<Rightarrow> error + graph" where
  "fetchChainSelf nodeId =
     (if nodeId = ''A'' then Inr \<lparr>nodes = Some [sampleNode ''A'', sampleNode ''B''], edges = Some []\<rparr>
      else if nodeId = ''B'' then Inr \<lparr>nodes = Some [sampleNode ''B'', sampleNode ''C''], edges = Some []\<rparr>
      else Inr emptyGraph)"

text \<open>A fetch that fails for B: A has the neighbours B and C, C has the neighbour D.\<close>

definition fetchFlaky :: "string \<Rightarrow> error + graph" where
  "fetchFlaky nodeId =
     (if nodeId = ''A'' then Inr \<lparr>nodes = Some [sampleNode ''B'', sampleNode ''C''], edges = Some []\<rparr>
      else if nodeId = ''B'' then Inl (FetchError ''HTTP error! status: 500'')
      else if nodeId = ''C'' then Inr \<lparr>nodes = Some [sampleNode ''D''], edges = Some []\<rparr>
      else Inr emptyGraph)"

section \<open>Vocabulary of the statements\<close>

text \<open>
  What the assembly reads of an edge: \<^verbatim>\<open>edge.data.source\<close>, \<^verbatim>\<open>edge.data.target\<close>
  and the level \<^verbatim>\<open>classifyRelationship(edge.data.type)\<close>.
\<close>

definition edgeSource :: "element \<Rightarrow> string option" where
  "edgeSource e = (case data e of None \<Rightarrow> None | Some d \<Rightarrow> source d)"

definition edgeTarget :: "element \<Rightarrow> string option" where
  "edgeTarget e = (case data e of None \<Rightarrow> None | Some d \<Rightarrow> target d)"

definition edgeLevel :: "element \<Rightarrow> level" where
  "edgeLevel e = classifyRelationship (case data e of None \<Rightarrow> None | Some d \<Rightarrow> data_type d)"

text \<open>
  An edge is dropped when its source or its target is the \<^verbatim>\<open>data.id\<close> of no
  node of the merged graph (the test \<^verbatim>\<open>!sourceConn || !targetConn\<close>); the
  warning written for it names both ends.
\<close>

definition edgeDropped :: "element list \<Rightarrow> element \<Rightarrow> bool" where
  "edgeDropped ns e =
     (data e \<noteq> None \<and>
      (edgeSource e \<notin> set (map dataId ns) \<or> edgeTarget e \<notin> set (map dataId ns)))"

definition invalidEdgeWarning :: "element \<Rightarrow> log_entry" where
  "invalidEdgeWarning e = InvalidEdge (edgeSource e) (edgeTarget e)"

text \<open>The entries pushed to \<^verbatim>\<open>targetConn.inbound\<close> and \<^verbatim>\<open>sourceConn.outbound\<close> for an edge.\<close>

definition inboundOf :: "element \<Rightarrow> inbound_conn" where
  "inboundOf e =
     \<lparr>in_edgeId = dataId e, sourceId = edgeSource e,
      in_type = (case data e of None \<Rightarrow> None | Some d \<Rightarrow> data_type d),
      in_label = (case data e of None \<Rightarrow> None | Some d \<Rightarrow> label d),
      in_level = edgeLevel e\<rparr>"

definition outboundOf :: "element \<Rightarrow> outbound_conn" where
  "outboundOf e =
     \<lparr>out_edgeId = dataId e, targetId = edgeTarget e,
      out_type = (case data e of None \<Rightarrow> None | Some d \<Rightarrow> data_type d),
      out_label = (case data e of None \<Rightarrow> None | Some d \<Rightarrow> label d),
      out_level = edgeLevel e\<rparr>"

text \<open>The inbound and outbound lists of the connection object of a node id, empty when there is none.\<close>

definition connInbound :: "connections \<Rightarrow> string option \<Rightarrow> inbound_conn list" where
  "connInbound m k = (case map_of m k of None \<Rightarrow> [] | Some c \<Rightarrow> inbound c)"

definition connOutbound :: "connections \<Rightarrow> string option \<Rightarrow> outbound_conn list" where
  "connOutbound m k = (case map_of m k of None \<Rightarrow> [] | Some c \<Rightarrow> outbound c)"

text \<open>\<^verbatim>\<open>node.data.metadata?.isOrphan === true\<close>, as the styling reads the tag.\<close>

definition isOrphanFlag :: "element \<Rightarrow> bool" where
  "isOrphanFlag n =
     (case data n of None \<Rightarrow> False
      | Some d \<Rightarrow> (case metadata d of None \<Rightarrow> False | Some md \<Rightarrow> isOrphan md = Some True))"

subsection \<open>Closed forms of the assembly loops\<close>

text \<open>
  The edge test against a set of keys, the edges on which the pass throws, the effect
  of one included edge on the connection object of key \<open>k\<close>, the map after the node
  loop, the included edges and the final connection map.
\<close>

definition keyDropped :: "string option set \<Rightarrow> element \<Rightarrow> bool" where
  "keyDropped K e = (data e \<noteq> None \<and> (edgeSource e \<notin> K \<or> edgeTarget e \<notin> K))"

definition edgeThrows :: "string option set \<Rightarrow> element \<Rightarrow> bool" where
  "edgeThrows K e =
     (case data e of None \<Rightarrow> True
      | Some d \<Rightarrow> \<not> keyDropped K e \<and> filterActivityDebug d = Inl TypeError)"

definition applyEdge :: "string option \<Rightarrow> connection \<Rightarrow> element \<Rightarrow> connection" where
  "applyEdge k c e =
     (case data e of None \<Rightarrow> c
      | Some d \<Rightarrow>
          (if target d = k then addInbound d (edgeLevel e) else id)
            ((if source d = k then addOutbound d (edgeLevel e) else id) c))"

definition initFold :: "element list \<Rightarrow> connections \<Rightarrow> connections" where
  "initFold ns m = foldl (\<lambda>m n. mapSet (dataId n) (emptyConnection n) m) m ns"

definition keptEdges :: "element list \<Rightarrow> element list \<Rightarrow> element list" where
  "keptEdges ns es = filter (\<lambda>e. \<not> edgeDropped ns e) es"

definition indexOf :: "element list \<Rightarrow> element list \<Rightarrow> connections" where
  "indexOf ns es = map (\<lambda>(k, c). (k, foldl (applyEdge k) c (keptEdges ns es))) (initFold ns [])"

text \<open>
  The node loop runs \<^verbatim>\<open>nodeConnections.set(node.data.id, {node, ...})\<close> for the nodes
  in order, and \<^verbatim>\<open>Map.set\<close> on a key already present replaces its value: the
  connection object of an id holds the last node of the list with that id. \<open>lastWithId ns v\<close>
  says that \<open>v\<close> is that node for its own id.
\<close>

definition lastWithId :: "element list \<Rightarrow> element \<Rightarrow> bool" where
  "lastWithId ns v = (find (\<lambda>n. dataId n = dataId v) (rev ns) = Some v)"

section \<open>Vocabulary of the expansion statements\<close>

text \<open>
  A fetch in which every failure is replaced by a response without nodes and edges; a
  graph as the updater leaves it (both lists present and deduplicated); and two
  traversals that agree on the \<^verbatim>\<open>visited\<close> set, the next frontier and the
  \<^verbatim>\<open>extraGraph\<close> state.
\<close>

definition failuresAsEmpty :: "(string \<Rightarrow> error + graph) \<Rightarrow> string \<Rightarrow> error + graph" where
  "failuresAsEmpty fetch nodeId =
     (case fetch nodeId of Inl e \<Rightarrow> Inr \<lparr>nodes = None, edges = None\<rparr> | Inr g \<Rightarrow> Inr g)"

definition normalGraph :: "graph \<Rightarrow> bool" where
  "normalGraph g =
     ((case nodes g of None \<Rightarrow> False | Some ns \<Rightarrow> dedupeById ns = ns)
      \<and> (case edges g of None \<Rightarrow> False | Some es \<Rightarrow> dedupeById es = es))"

definition sameTraversal :: "traversal \<Rightarrow> traversal \<Rightarrow> bool" where
  "sameTraversal tr tr' =
     (visited tr = visited tr' \<and> nextFrontier tr = nextFrontier tr'
      \<and> extraGraphState (sess tr) = extraGraphState (sess tr'))"

section \<open>Properties of the merger\<close>

lemma dedupeLoop_firstSeen:
  "dedupeLoop arr m = m @ map (\<lambda>e. (elemId e, e)) (firstSeen (fst ` set m) arr)"
proof (induction arr arbitrary: m)
  case Nil
  show ?case by simp
next
  case (Cons el arr)
  show ?case
    by (simp add: Cons.IH Let_def map_of_eq_None_iff insert_commute Un_commute)
qed

lemma dedupeById_firstSeen: "dedupeById arr = firstSeen {} arr"
  by (simp add: dedupeById_def dedupeLoop_firstSeen comp_def)

lemma firstSeen_append:
  "firstSeen S (xs @ ys) = firstSeen S xs @ firstSeen (S \<union> truthyIds xs) ys"
  by (induction xs arbitrary: S)
     (auto simp: truthyIds_def intro!: arg_cong2[where f=firstSeen])

lemma firstSeen_covered: "truthyIds ys \<subseteq> S \<Longrightarrow> firstSeen S ys = []"
  by (induction ys arbitrary: S) (auto simp: truthyIds_def)

lemma firstSeen_subset: "set (firstSeen S arr) \<subseteq> set arr"
  by (induction arr arbitrary: S) auto

lemma firstSeen_truthy: "e \<in> set (firstSeen S arr) \<Longrightarrow> truthy (elemId e)"
  by (induction arr arbitrary: S) (auto split: if_splits)

lemma firstSeen_fresh: "e \<in> set (firstSeen S arr) \<Longrightarrow> elemId e \<notin> S"
  by (induction arr arbitrary: S) (auto split: if_splits)

lemma firstSeen_distinct: "distinct (map elemId (firstSeen S arr))"
  by (induction arr arbitrary: S) (auto dest: firstSeen_fresh)

lemma firstSeen_ids: "elemId ` set (firstSeen S arr) = truthyIds arr - S"
  by (induction arr arbitrary: S) (auto simp: truthyIds_def)

section \<open>Properties of the assembly loops\<close>

lemma filterActivityDebug_error: "filterActivityDebug d = Inl err \<Longrightarrow> err = TypeError"
  by (auto simp: filterActivityDebug_def split: option.splits if_splits)

lemma mutateConn_keys [simp]: "map fst (mutateConn k f m) = map fst m"
  by (induction m) (auto simp: mutateConn_def)

lemma map_of_None_keys: "(map_of m k = None) = (k \<notin> fst ` set m)"
  by (simp add: map_of_eq_None_iff)

lemma processEdge_closed:
  assumes "fst ` set m = K"
  shows "processEdge e \<lparr>nodeConnections = m, validEdges = v, warnings = w\<rparr> =
     (if edgeThrows K e then Inl TypeError
      else if keyDropped K e
      then Inr \<lparr>nodeConnections = m, validEdges = v, warnings = w @ [invalidEdgeWarning e]\<rparr>
      else Inr \<lparr>nodeConnections = map (\<lambda>(k, c). (k, applyEdge k c e)) m,
                validEdges = v @ [mkEdgeInfo e (edgeLevel e)], warnings = w\<rparr>)"
proof (cases "data e")
  case None
  then show ?thesis by (simp add: processEdge_def edgeThrows_def)
next
  case (Some d)
  show ?thesis
  proof (cases "keyDropped K e")
    case True
    with Some assms show ?thesis
      by (auto simp: processEdge_def edgeThrows_def keyDropped_def map_of_None_keys
            edgeSource_def edgeTarget_def invalidEdgeWarning_def)
  next
    case False
    have mut: "mutateConn (target d) (addInbound d (edgeLevel e))
                 (mutateConn (source d) (addOutbound d (edgeLevel e)) m)
               = map (\<lambda>(k, c). (k, applyEdge k c e)) m"
      using Some by (induction m) (auto simp: mutateConn_def applyEdge_def)
    have lv: "classifyRelationship (data_type d) = edgeLevel e"
      using Some by (simp add: edgeLevel_def)
    from False Some assms have res: "map_of m (source d) \<noteq> None" "map_of m (target d) \<noteq> None"
      by (auto simp: keyDropped_def map_of_None_keys edgeSource_def edgeTarget_def)
    show ?thesis
    proof (cases "filterActivityDebug d")
      case (Inl err)
      then have "err = TypeError" by (rule filterActivityDebug_error)
      with Inl False Some res show ?thesis
        by (simp add: processEdge_def edgeThrows_def)
    next
      case (Inr dbg)
      with False Some res mut lv show ?thesis
        by (simp add: processEdge_def edgeThrows_def)
    qed
  qed
qed

lemma processEdges_closed:
  assumes "fst ` set m = K"
  shows "processEdges es \<lparr>nodeConnections = m, validEdges = v, warnings = w\<rparr> =
     (if list_ex (edgeThrows K) es then Inl TypeError
      else Inr \<lparr>nodeConnections =
                  map (\<lambda>(k, c). (k, foldl (applyEdge k) c (filter (\<lambda>e. \<not> keyDropped K e) es))) m,
                validEdges = v @ map (\<lambda>e. mkEdgeInfo e (edgeLevel e)) (filter (\<lambda>e. \<not> keyDropped K e) es),
                warnings = w @ map invalidEdgeWarning (filter (keyDropped K) es)\<rparr>)"
  using assms
proof (induction es arbitrary: m v w)
  case Nil
  show ?case by simp
next
  case (Cons e es)
  have keys: "fst ` set (map (\<lambda>(k, c). (k, applyEdge k c e)) m) = K"
    using Cons.prems by (force simp: image_iff)
  show ?case
  proof (cases "edgeThrows K e")
    case True
    then show ?thesis by (simp add: processEdge_closed[OF Cons.prems])
  next
    case nt: False
    show ?thesis
    proof (cases "keyDropped K e")
      case True
      with nt show ?thesis
        by (simp add: processEdge_closed[OF Cons.prems] Cons.IH[OF Cons.prems])
    next
      case False
      let ?m = "map (\<lambda>(k, c). (k, applyEdge k c e)) m"
      have step: "processEdges (e # es) \<lparr>nodeConnections = m, validEdges = v, warnings = w\<rparr>
            = processEdges es \<lparr>nodeConnections = ?m,
                 validEdges = v @ [mkEdgeInfo e (edgeLevel e)], warnings = w\<rparr>"
        using nt False by (simp add: processEdge_closed[OF Cons.prems])
      have fold: "map (\<lambda>(k, c). (k, foldl (applyEdge k) c (filter (\<lambda>e. \<not> keyDropped K e) es))) ?m
            = map (\<lambda>(k, c). (k, foldl (applyEdge k) c (filter (\<lambda>e. \<not> keyDropped K e) (e # es)))) m"
        using False by (induction m) auto
      show ?thesis
        unfolding step Cons.IH[OF keys] fold
        using nt False by simp
    qed
  qed
qed

lemma initConnections_closed:
  "initConnections ns m =
     (if list_ex (\<lambda>n. data n = None) ns then Inl TypeError else Inr (initFold ns m))"
  by (induction ns arbitrary: m) (auto simp: initFold_def dataId_def split: option.splits)

lemma mapSet_keys: "fst ` set (mapSet k v m) = insert k (fst ` set m)"
  by (induction m) auto

lemma mapSet_fresh: "k \<notin> fst ` set m \<Longrightarrow> mapSet k v m = m @ [(k, v)]"
  by (induction m) auto

lemma mapSet_distinct: "distinct (map fst m) \<Longrightarrow> distinct (map fst (mapSet k v m))"
  by (induction m) (auto simp: mapSet_keys[simplified image_iff] image_iff)

lemma initFold_keys: "fst ` set (initFold ns m) = fst ` set m \<union> dataId ` set ns"
  by (induction ns arbitrary: m) (auto simp: initFold_def mapSet_keys)

lemma initFold_distinct: "distinct (map fst m) \<Longrightarrow> distinct (map fst (initFold ns m))"
  by (induction ns arbitrary: m) (auto simp: initFold_def mapSet_distinct)

lemma initFold_fresh:
  "distinct (map dataId ns) \<Longrightarrow> dataId ` set ns \<inter> fst ` set m = {} \<Longrightarrow>
   initFold ns m = m @ map (\<lambda>n. (dataId n, emptyConnection n)) ns"
proof (induction ns arbitrary: m)
  case Nil
  show ?case by (simp add: initFold_def)
next
  case (Cons n ns)
  from Cons.prems have fresh: "dataId n \<notin> fst ` set m" by auto
  have "initFold (n # ns) m = initFold ns (m @ [(dataId n, emptyConnection n)])"
    by (simp add: initFold_def mapSet_fresh[OF fresh])
  also have "\<dots> = (m @ [(dataId n, emptyConnection n)]) @ map (\<lambda>n. (dataId n, emptyConnection n)) ns"
    using Cons.prems by (intro Cons.IH) auto
  finally show ?case by simp
qed

lemma mapSet_values:
  "(k', c) \<in> set (mapSet k v m) \<Longrightarrow> (k', c) \<in> set m \<or> (k' = k \<and> c = v)"
  by (induction m) (auto split: if_splits)

lemma initFold_values:
  "(k, c) \<in> set (initFold ns m) \<Longrightarrow>
   (k, c) \<in> set m \<or> (\<exists>n \<in> set ns. dataId n = k \<and> c = emptyConnection n)"
proof (induction ns arbitrary: m)
  case Nil
  then show ?case by (simp add: initFold_def)
next
  case (Cons n ns)
  from Cons.prems have "(k, c) \<in> set (initFold ns (mapSet (dataId n) (emptyConnection n) m))"
    by (simp add: initFold_def)
  from Cons.IH[OF this] show ?case
    by (auto dest: mapSet_values)
qed

lemma applyEdge_fold_node [simp]: "node (foldl (applyEdge k) c es) = node c"
  by (induction es arbitrary: c)
     (auto simp: applyEdge_def addInbound_def addOutbound_def markLevel_def
           split: option.splits level.splits)

lemma addInbound_fields [simp]:
  "inbound (addInbound d lv c) = inbound c @
     [\<lparr>in_edgeId = data_id d, sourceId = source d, in_type = data_type d,
       in_label = label d, in_level = lv\<rparr>]"
  "outbound (addInbound d lv c) = outbound c"
  "totalConnections (addInbound d lv c) = totalConnections c + 1"
  by (auto simp: addInbound_def markLevel_def split: level.splits)

lemma addOutbound_fields [simp]:
  "outbound (addOutbound d lv c) = outbound c @
     [\<lparr>out_edgeId = data_id d, targetId = target d, out_type = data_type d,
       out_label = label d, out_level = lv\<rparr>]"
  "inbound (addOutbound d lv c) = inbound c"
  "totalConnections (addOutbound d lv c) = totalConnections c + 1"
  by (auto simp: addOutbound_def markLevel_def split: level.splits)

lemma applyEdge_fold_inbound:
  "\<forall>e \<in> set es. data e \<noteq> None \<Longrightarrow>
   inbound (foldl (applyEdge k) c es) = inbound c @ map inboundOf (filter (\<lambda>e. edgeTarget e = k) es)"
  by (induction es arbitrary: c)
     (auto simp: applyEdge_def inboundOf_def edgeTarget_def edgeSource_def dataId_def)

lemma applyEdge_fold_outbound:
  "\<forall>e \<in> set es. data e \<noteq> None \<Longrightarrow>
   outbound (foldl (applyEdge k) c es) = outbound c @ map outboundOf (filter (\<lambda>e. edgeSource e = k) es)"
  by (induction es arbitrary: c)
     (auto simp: applyEdge_def outboundOf_def edgeTarget_def edgeSource_def dataId_def)

lemma applyEdge_fold_total:
  "\<forall>e \<in> set es. data e \<noteq> None \<Longrightarrow>
   totalConnections (foldl (applyEdge k) c es) =
     totalConnections c + length (filter (\<lambda>e. edgeSource e = k) es)
       + length (filter (\<lambda>e. edgeTarget e = k) es)"
  by (induction es arbitrary: c)
     (auto simp: applyEdge_def edgeTarget_def edgeSource_def)

lemma keyDropped_edgeDropped: "keyDropped (dataId ` set ns) = edgeDropped ns"
  by (auto simp: keyDropped_def edgeDropped_def fun_eq_iff)

lemma assembleGraph_closed:
  "assembleGraph sel \<lparr>mergedNodes = ns, mergedEdges = es\<rparr> =
     (if list_ex (\<lambda>n. data n = None) ns \<or> list_ex (edgeThrows (dataId ` set ns)) es
      then Inl TypeError
      else Inr \<lparr>merged = \<lparr>mergedNodes = ns, mergedEdges = es\<rparr>,
                connectionMap = indexOf ns es,
                includedEdges = map (\<lambda>e. mkEdgeInfo e (edgeLevel e)) (keptEdges ns es),
                invalidEdgeWarnings = map invalidEdgeWarning (filter (edgeDropped ns) es),
                connectedNodes = connectedOf (indexOf ns es),
                orphanNodes = orphansOf (indexOf ns es),
                finalNodes = connectedOf (indexOf ns es) @ map styleOrphan (orphansOf (indexOf ns es)),
                highlightedNodes = highlightNodes sel (indexOf ns es),
                highlightedEdges = highlightEdges sel (indexOf ns es)\<rparr>)"
proof -
  have keys: "fst ` set (initFold ns []) = dataId ` set ns"
    by (simp add: initFold_keys)
  show ?thesis
    by (simp add: assembleGraph_def initConnections_closed processEdges_closed[OF keys]
          keyDropped_edgeDropped indexOf_def keptEdges_def)
qed

lemma edgeThrows_not_dropped: "edgeThrows (dataId ` set ns) e \<Longrightarrow> \<not> edgeDropped ns e"
  by (auto simp: edgeThrows_def keyDropped_edgeDropped edgeDropped_def split: option.splits)

lemma list_ex_keptEdges:
  "list_ex (edgeThrows (dataId ` set ns)) (keptEdges ns es) = list_ex (edgeThrows (dataId ` set ns)) es"
  by (auto simp: keptEdges_def list_ex_iff dest: edgeThrows_not_dropped)

lemma keptEdges_idem [simp]: "keptEdges ns (keptEdges ns es) = keptEdges ns es"
  by (simp add: keptEdges_def)

lemma dropped_of_kept [simp]: "filter (edgeDropped ns) (keptEdges ns es) = []"
  by (simp add: keptEdges_def)

lemma indexOf_kept [simp]: "indexOf ns (keptEdges ns es) = indexOf ns es"
  by (simp add: indexOf_def)

lemma assembleGraph_filtered:
  "assembleGraph sel \<lparr>mergedNodes = ns, mergedEdges = es\<rparr> =
     (case assembleGraph sel \<lparr>mergedNodes = ns, mergedEdges = keptEdges ns es\<rparr> of
        Inl err \<Rightarrow> Inl err
      | Inr r \<Rightarrow> Inr (r\<lparr>merged := \<lparr>mergedNodes = ns, mergedEdges = es\<rparr>,
                      invalidEdgeWarnings := map invalidEdgeWarning (filter (edgeDropped ns) es)\<rparr>))"
  by (simp add: assembleGraph_closed list_ex_keptEdges)

lemma indexOf_entry:
  assumes "(k, c) \<in> set (indexOf ns es)"
  shows "\<exists>n \<in> set ns. dataId n = k \<and> c = foldl (applyEdge k) (emptyConnection n) (keptEdges ns es)"
proof -
  from assms obtain c0 where c0: "(k, c0) \<in> set (initFold ns [])"
    and c: "c = foldl (applyEdge k) c0 (keptEdges ns es)"
    by (auto simp: indexOf_def)
  from initFold_values[OF c0] c show ?thesis by auto
qed

lemma indexOf_keys: "fst ` set (indexOf ns es) = dataId ` set ns"
proof -
  have "map fst (indexOf ns es) = map fst (initFold ns [])"
    by (simp add: indexOf_def comp_def case_prod_unfold)
  then have "set (map fst (indexOf ns es)) = set (map fst (initFold ns []))" by simp
  then show ?thesis by (simp add: initFold_keys)
qed

lemma kept_have_data:
  "\<not> list_ex (edgeThrows K) es \<Longrightarrow> \<forall>e \<in> set es. data e \<noteq> None"
  by (auto simp: list_ex_iff edgeThrows_def split: option.splits)

lemma kept_filter: "filter P (keptEdges ns es) = filter (\<lambda>e. \<not> edgeDropped ns e \<and> P e) es"
  by (simp add: keptEdges_def conj_commute)

text \<open>The fields of an entry of the connection map of a successful pass.\<close>

lemma indexOf_entry_fields:
  assumes "\<not> list_ex (edgeThrows K) es" and "(k, c) \<in> set (indexOf ns es)"
  shows "inbound c = map inboundOf (filter (\<lambda>e. \<not> edgeDropped ns e \<and> edgeTarget e = k) es)"
    and "outbound c = map outboundOf (filter (\<lambda>e. \<not> edgeDropped ns e \<and> edgeSource e = k) es)"
    and "totalConnections c = length (inbound c) + length (outbound c)"
    and "dataId (node c) = k" and "node c \<in> set ns"
proof -
  from indexOf_entry[OF assms(2)] obtain n where n: "n \<in> set ns" "dataId n = k"
    and c: "c = foldl (applyEdge k) (emptyConnection n) (keptEdges ns es)" by auto
  have d: "\<forall>e \<in> set (keptEdges ns es). data e \<noteq> None"
    using kept_have_data[OF assms(1)] by (simp add: keptEdges_def)
  show i: "inbound c = map inboundOf (filter (\<lambda>e. \<not> edgeDropped ns e \<and> edgeTarget e = k) es)"
    by (simp add: c applyEdge_fold_inbound[OF d] emptyConnection_def kept_filter)
  show o: "outbound c = map outboundOf (filter (\<lambda>e. \<not> edgeDropped ns e \<and> edgeSource e = k) es)"
    by (simp add: c applyEdge_fold_outbound[OF d] emptyConnection_def kept_filter)
  show "totalConnections c = length (inbound c) + length (outbound c)"
    unfolding i o by (simp add: c applyEdge_fold_total[OF d] emptyConnection_def kept_filter)
  show "dataId (node c) = k" "node c \<in> set ns"
    using n by (simp_all add: c emptyConnection_def)
qed

section \<open>Claims about the merger\<close>

lemma firstSeen_filter:
  "filter (\<lambda>e. elemId e = n) (firstSeen S arr) =
     (if truthy n \<and> n \<notin> S then take 1 (filter (\<lambda>e. elemId e = n) arr) else [])"
proof (induction arr arbitrary: S)
  case Nil
  show ?case by simp
next
  case (Cons el arr)
  show ?case by (auto simp: Cons.IH)
qed

lemma dedupeById_filter:
  "filter (\<lambda>e. elemId e = n) (dedupeById arr) =
     (if truthy n then take 1 (filter (\<lambda>e. elemId e = n) arr) else [])"
  by (simp add: dedupeById_firstSeen firstSeen_filter)

lemma take1_filter_append:
  "n \<in> f ` set A \<Longrightarrow> take 1 (filter (\<lambda>e. f e = n) (A @ B)) = take 1 (filter (\<lambda>e. f e = n) A)"
  by (induction A) auto

lemma take1_filter_nonempty:
  "n \<in> f ` set A \<Longrightarrow> take 1 (filter (\<lambda>e. f e = n) A) \<noteq> []"
  by (induction A) auto

lemma dedupeById_append_self: "dedupeById (G @ G) = dedupeById G"
  by (simp add: dedupeById_firstSeen firstSeen_append firstSeen_covered)

lemma firstSeen_idem: "firstSeen S (firstSeen S ys) = firstSeen S ys"
  by (induction ys arbitrary: S) auto

lemma dedupeById_again: "dedupeById (dedupeById xs @ xs) = dedupeById xs"
proof -
  have "truthyIds xs \<subseteq> truthyIds (firstSeen {} xs)"
    using firstSeen_ids[of "{}" xs] firstSeen_truthy[of _ "{}" xs]
    by (auto simp: truthyIds_def)
  then show ?thesis
    by (simp add: dedupeById_firstSeen firstSeen_append firstSeen_covered firstSeen_idem)
qed

lemma hasActiveSelections_empty: "\<not> hasActiveSelections []"
  by (simp add: hasActiveSelections_def)

text \<open>
  Claim C9. Merging a graph with itself gives what merging it alone gives: for every
  list \<open>G\<close> of elements, \<open>dedupeById\<close> of \<open>G\<close> followed by \<open>G\<close> is \<open>dedupeById\<close> of
  \<open>G\<close>, the same elements in the same order. So the merge of \<open>updateGraph\<close> gives,
  for a base graph and an equal \<open>extraGraph\<close>, what it gives with an empty
  \<open>extraGraph\<close>, and merging the same response twice into an empty \<open>extraGraph\<close>
  gives what merging it once gives.
\<close>

theorem dedupeById_idempotent:
  "dedupeById (G @ G) = dedupeById G
   \<and> mergedGraphData [] g g = mergedGraphData [] g emptyGraph
   \<and> mergeInto (mergeInto emptyGraph G H) G H = mergeInto emptyGraph G H"
  by (simp add: dedupeById_append_self mergedGraphData_def hasActiveSelections_empty
        emptyGraph_def mergeInto_def orEmpty_def dedupeById_again)

theorem dedupeById_idempotent_witness:
  "dedupeById ([sampleLabelled ''n1'' ''first'', sampleNode ''n2'', sampleLabelled ''n1'' ''second'']
               @ [sampleLabelled ''n1'' ''first'', sampleNode ''n2'', sampleLabelled ''n1'' ''second''])
   = [sampleLabelled ''n1'' ''first'', sampleNode ''n2'']
   \<and> dedupeById [sampleLabelled ''n1'' ''first'', sampleNode ''n2'', sampleLabelled ''n1'' ''second'']
   = [sampleLabelled ''n1'' ''first'', sampleNode ''n2'']"
proof -
  have "dedupeById [sampleLabelled ''n1'' ''first'', sampleNode ''n2'', sampleLabelled ''n1'' ''second'']
        = [sampleLabelled ''n1'' ''first'', sampleNode ''n2'']"
    by (simp add: dedupeById_def elemId_def dataId_def truthy_def sampleNode_def
          sampleLabelled_def Let_def)
  then show ?thesis
    using dedupeById_idempotent
      [of "[sampleLabelled ''n1'' ''first'', sampleNode ''n2'', sampleLabelled ''n1'' ''second'']"
          emptyGraph "[]"]
    by simp
qed

text \<open>
  Claim C4. First write wins: when some element of \<open>A\<close> has the (truthy) id \<open>n\<close>, the
  merge of \<open>A\<close> followed by \<open>B\<close> holds exactly one element of id \<open>n\<close>, the first one
  of \<open>A\<close>; every element of \<open>B\<close> of id \<open>n\<close> that differs from it is absent from the
  result; and when \<open>B\<close> too has an element of id \<open>n\<close> and the two first versions
  differ, merging in the other order gives another result.
\<close>

theorem dedupeById_first_write_wins:
  assumes "n \<in> elemId ` set A" and "truthy n"
  shows "filter (\<lambda>e. elemId e = n) (dedupeById (A @ B)) = take 1 (filter (\<lambda>e. elemId e = n) A)
    \<and> (\<forall>b \<in> set B. elemId b = n \<and> [b] \<noteq> take 1 (filter (\<lambda>e. elemId e = n) A)
          \<longrightarrow> b \<notin> set (dedupeById (A @ B)))
    \<and> (n \<in> elemId ` set B
         \<and> take 1 (filter (\<lambda>e. elemId e = n) A) \<noteq> take 1 (filter (\<lambda>e. elemId e = n) B)
        \<longrightarrow> dedupeById (A @ B) \<noteq> dedupeById (B @ A))"
proof -
  let ?P = "\<lambda>e. elemId e = n"
  have keep: "filter ?P (dedupeById (A @ B)) = take 1 (filter ?P A)"
    using take1_filter_append[OF assms(1), of B] assms(2)
    by (simp add: dedupeById_filter del: filter_append)
  have drop: "b \<notin> set (dedupeById (A @ B))"
    if "b \<in> set B" "elemId b = n" "[b] \<noteq> take 1 (filter ?P A)" for b
  proof
    assume "b \<in> set (dedupeById (A @ B))"
    with that(2) have "b \<in> set (filter ?P (dedupeById (A @ B)))" by simp
    then have "b \<in> set (take 1 (filter ?P A))" by (simp only: keep)
    moreover obtain a where "take 1 (filter ?P A) = [a]"
      using take1_filter_nonempty[OF assms(1)]
      by (cases "filter ?P A") auto
    ultimately show False using that(3) by simp
  qed
  have order: "dedupeById (A @ B) \<noteq> dedupeById (B @ A)"
    if "n \<in> elemId ` set B" "take 1 (filter ?P A) \<noteq> take 1 (filter ?P B)"
  proof
    assume eq: "dedupeById (A @ B) = dedupeById (B @ A)"
    have "filter ?P (dedupeById (B @ A)) = take 1 (filter ?P B)"
      using take1_filter_append[OF that(1), of A] assms(2)
      by (simp add: dedupeById_filter del: filter_append)
    with keep eq that(2) show False by simp
  qed
  from keep drop order show ?thesis by blast
qed

theorem dedupeById_first_write_wins_witness:
  "Some ''n1'' \<in> elemId ` set [sampleNode ''n0'', sampleLabelled ''n1'' ''first'']
   \<and> truthy (Some ''n1'')
   \<and> filter (\<lambda>e. elemId e = Some ''n1'')
        (dedupeById ([sampleNode ''n0'', sampleLabelled ''n1'' ''first'']
                     @ [sampleLabelled ''n1'' ''second'']))
      = [sampleLabelled ''n1'' ''first'']
   \<and> sampleLabelled ''n1'' ''second''
       \<notin> set (dedupeById ([sampleNode ''n0'', sampleLabelled ''n1'' ''first'']
                            @ [sampleLabelled ''n1'' ''second'']))
   \<and> dedupeById ([sampleNode ''n0'', sampleLabelled ''n1'' ''first''] @ [sampleLabelled ''n1'' ''second''])
      \<noteq> dedupeById ([sampleLabelled ''n1'' ''second''] @ [sampleNode ''n0'', sampleLabelled ''n1'' ''first''])"
  using dedupeById_first_write_wins
    [of "Some ''n1''" "[sampleNode ''n0'', sampleLabelled ''n1'' ''first'']"
        "[sampleLabelled ''n1'' ''second'']"]
  by (simp add: elemId_def dataId_def truthy_def sampleNode_def sampleLabelled_def Let_def)

text \<open>
  Claim C10. Every element that \<open>dedupeById\<close> returns has a non-empty id, which is
  \<^verbatim>\<open>el.data.id\<close> when that is non-empty and \<^verbatim>\<open>el.id\<close> otherwise; the ids of the
  result are pairwise distinct; the result holds input elements only; an input element
  with neither id is not in the result (the function returns the list and nothing
  else, so nothing records the omission); and every non-empty id of the input is the
  id of an element of the result. The graphs the merge builds with it therefore hold
  no element without an id.
\<close>

theorem dedupeById_output_ids:
  "(\<forall>e \<in> set (dedupeById arr).
      \<exists>s. s \<noteq> [] \<and> elemId e = Some s
          \<and> elemId e = (if truthy (dataId e) then dataId e else el_id e))
   \<and> distinct (map elemId (dedupeById arr))
   \<and> set (dedupeById arr) \<subseteq> set arr
   \<and> (\<forall>e \<in> set arr. \<not> truthy (dataId e) \<and> \<not> truthy (el_id e) \<longrightarrow> e \<notin> set (dedupeById arr))
   \<and> (\<forall>e \<in> set arr. truthy (elemId e) \<longrightarrow> elemId e \<in> elemId ` set (dedupeById arr))
   \<and> (\<forall>e \<in> set (orEmpty (nodes (mergeInto prev ns es))) \<union> set (orEmpty (edges (mergeInto prev ns es))).
         truthy (elemId e))"
proof -
  have a: "\<exists>s. s \<noteq> [] \<and> elemId e = Some s \<and> elemId e = (if truthy (dataId e) then dataId e else el_id e)"
    if "e \<in> set (dedupeById xs)" for e xs
  proof -
    from that have "truthy (elemId e)"
      using firstSeen_truthy[of e "{}" xs] by (simp add: dedupeById_firstSeen)
    then obtain s where "elemId e = Some s" "s \<noteq> []"
      by (auto simp: truthy_def split: option.splits)
    then show ?thesis by (auto simp: elemId_def)
  qed
  have b: "distinct (map elemId (dedupeById arr))"
    by (simp add: dedupeById_firstSeen firstSeen_distinct)
  have c: "set (dedupeById arr) \<subseteq> set arr"
    by (simp add: dedupeById_firstSeen firstSeen_subset)
  have d: "e \<notin> set (dedupeById arr)" if "\<not> truthy (dataId e)" "\<not> truthy (el_id e)" for e
    using firstSeen_truthy[of e "{}" arr] that
    by (auto simp: dedupeById_firstSeen elemId_def)
  have e: "elemId e \<in> elemId ` set (dedupeById arr)" if "e \<in> set arr" "truthy (elemId e)" for e
    using that by (simp add: dedupeById_firstSeen firstSeen_ids truthyIds_def)
  have t: "truthy (elemId e)" if "e \<in> set (dedupeById xs)" for e xs
    using that firstSeen_truthy[of e "{}" xs] by (simp add: dedupeById_firstSeen)
  have f: "truthy (elemId e)"
    if "e \<in> set (orEmpty (nodes (mergeInto prev ns es))) \<union> set (orEmpty (edges (mergeInto prev ns es)))"
    for e
    using that t[of e] by (auto simp: mergeInto_def orEmpty_def)
  from a[of _ arr] b c d e f show ?thesis by blast
qed

theorem dedupeById_output_ids_witness:
  "dedupeById [\<lparr>data = None, el_id = None\<rparr>, sampleNode ''n1'', \<lparr>data = None, el_id = Some []\<rparr>,
               \<lparr>data = None, el_id = Some ''n2''\<rparr>, sampleLabelled ''n1'' ''again'']
     = [sampleNode ''n1'', \<lparr>data = None, el_id = Some ''n2''\<rparr>]
   \<and> distinct (map elemId [sampleNode ''n1'', \<lparr>data = None, el_id = Some ''n2''\<rparr>])
   \<and> truthy (elemId (sampleNode ''n1'')) \<and> truthy (elemId \<lparr>data = None, el_id = Some ''n2''\<rparr>)"
proof -
  let ?arr = "[\<lparr>data = None, el_id = None\<rparr>, sampleNode ''n1'', \<lparr>data = None, el_id = Some []\<rparr>,
               \<lparr>data = None, el_id = Some ''n2''\<rparr>, sampleLabelled ''n1'' ''again'']"
  have ev: "dedupeById ?arr = [sampleNode ''n1'', \<lparr>data = None, el_id = Some ''n2''\<rparr>]"
    by (simp add: dedupeById_def elemId_def dataId_def truthy_def sampleNode_def
          sampleLabelled_def Let_def)
  note ids = dedupeById_output_ids[of ?arr emptyGraph "[]" "[]"]
  have d: "distinct (map elemId (dedupeById ?arr))"
    by (rule ids[THEN conjunct2, THEN conjunct1])
  have "\<forall>e \<in> set (dedupeById ?arr). \<exists>s. s \<noteq> [] \<and> elemId e = Some s"
    using ids[THEN conjunct1] by blast
  then have t: "\<forall>e \<in> set (dedupeById ?arr). truthy (elemId e)"
    by (auto simp: truthy_def)
  from ev d t show ?thesis by (simp only: ev) simp
qed

section \<open>Claims about the assembly pass\<close>

lemma assembleGraph_InrD:
  assumes "assembleGraph sel g = Inr r"
  shows "\<not> list_ex (\<lambda>n. data n = None) (mergedNodes g)"
    and "\<not> list_ex (edgeThrows (dataId ` set (mergedNodes g))) (mergedEdges g)"
    and "connectionMap r = indexOf (mergedNodes g) (mergedEdges g)"
    and "includedEdges r = map (\<lambda>e. mkEdgeInfo e (edgeLevel e)) (keptEdges (mergedNodes g) (mergedEdges g))"
    and "invalidEdgeWarnings r = map invalidEdgeWarning (filter (edgeDropped (mergedNodes g)) (mergedEdges g))"
    and "connectedNodes r = connectedOf (connectionMap r)"
    and "orphanNodes r = orphansOf (connectionMap r)"
    and "finalNodes r = connectedNodes r @ map styleOrphan (orphanNodes r)"
    and "highlightedNodes r = highlightNodes sel (connectionMap r)"
    and "highlightedEdges r = highlightEdges sel (connectionMap r)"
proof -
  obtain ns es where g: "g = \<lparr>mergedNodes = ns, mergedEdges = es\<rparr>" by (cases g) auto
  note c = assms[unfolded g assembleGraph_closed]
  show "\<not> list_ex (\<lambda>n. data n = None) (mergedNodes g)"
    and "\<not> list_ex (edgeThrows (dataId ` set (mergedNodes g))) (mergedEdges g)"
    using c by (auto simp: g split: if_splits)
  then have ok: "\<not> (list_ex (\<lambda>n. data n = None) ns \<or> list_ex (edgeThrows (dataId ` set ns)) es)"
    by (simp add: g)
  from c ok have r: "r = \<lparr>merged = \<lparr>mergedNodes = ns, mergedEdges = es\<rparr>,
                connectionMap = indexOf ns es,
                includedEdges = map (\<lambda>e. mkEdgeInfo e (edgeLevel e)) (keptEdges ns es),
                invalidEdgeWarnings = map invalidEdgeWarning (filter (edgeDropped ns) es),
                connectedNodes = connectedOf (indexOf ns es),
                orphanNodes = orphansOf (indexOf ns es),
                finalNodes = connectedOf (indexOf ns es) @ map styleOrphan (orphansOf (indexOf ns es)),
                highlightedNodes = highlightNodes sel (indexOf ns es),
                highlightedEdges = highlightEdges sel (indexOf ns es)\<rparr>"
    by (simp only: if_False) simp
  show "connectionMap r = indexOf (mergedNodes g) (mergedEdges g)"
    and "includedEdges r = map (\<lambda>e. mkEdgeInfo e (edgeLevel e)) (keptEdges (mergedNodes g) (mergedEdges g))"
    and "invalidEdgeWarnings r = map invalidEdgeWarning (filter (edgeDropped (mergedNodes g)) (mergedEdges g))"
    and "connectedNodes r = connectedOf (connectionMap r)"
    and "orphanNodes r = orphansOf (connectionMap r)"
    and "finalNodes r = connectedNodes r @ map styleOrphan (orphanNodes r)"
    and "highlightedNodes r = highlightNodes sel (connectionMap r)"
    and "highlightedEdges r = highlightEdges sel (connectionMap r)"
    by (simp_all add: r g)
qed

lemma included_edges: "map edge (map (\<lambda>e. mkEdgeInfo e (edgeLevel e)) es) = es"
  by (induction es) (auto simp: mkEdgeInfo_def)

lemma assembleGraph_total:
  assumes "\<forall>n \<in> set ns. \<exists>i. dataId n = Some i" and "\<forall>e \<in> set es. data e \<noteq> None"
  shows "\<exists>r. assembleGraph sel \<lparr>mergedNodes = ns, mergedEdges = es\<rparr> = Inr r"
proof -
  have n: "\<not> list_ex (\<lambda>n. data n = None) ns"
    using assms(1) by (fastforce simp: list_ex_iff dataId_def split: option.splits)
  have "\<not> edgeThrows (dataId ` set ns) e" if e: "e \<in> set es" for e
  proof -
    from assms(2) e obtain d where d: "data e = Some d" by auto
    show ?thesis
    proof (cases "edgeDropped ns e")
      case True
      then show ?thesis by (simp add: edgeThrows_def d keyDropped_edgeDropped)
    next
      case False
      with d have "source d \<in> dataId ` set ns" "target d \<in> dataId ` set ns"
        by (auto simp: edgeDropped_def edgeSource_def edgeTarget_def)
      with assms(1) obtain s t where "source d = Some s" "target d = Some t" by force
      then show ?thesis
        by (simp add: edgeThrows_def d filterActivityDebug_def)
    qed
  qed
  then have "\<not> list_ex (edgeThrows (dataId ` set ns)) es" by (simp add: list_ex_iff)
  with n show ?thesis by (simp add: assembleGraph_closed)
qed

text \<open>
  Claim C5. An edge whose source or target is the id of no node of the merged graph is
  dropped without failing the pass: the assembly of a graph is the assembly of the
  graph without its dropped edges, but for the merged graph it echoes and for one
  warning per dropped edge, in order; in particular the pass fails on the one exactly
  when it fails on the other. When the pass returns, the included edges are the edges
  that are not dropped, in order, and each connection object lists as inbound and
  outbound, and counts in \<open>totalConnections\<close>, the edges that are not dropped and end
  or start at its key, and no others. When every node has a string id and every edge
  a data object, the pass returns.
\<close>

theorem unresolved_edges_are_dropped:
  "assembleGraph sel \<lparr>mergedNodes = ns, mergedEdges = es\<rparr> =
     (case assembleGraph sel \<lparr>mergedNodes = ns, mergedEdges = filter (\<lambda>e. \<not> edgeDropped ns e) es\<rparr> of
        Inl err \<Rightarrow> Inl err
      | Inr r \<Rightarrow> Inr (r\<lparr>merged := \<lparr>mergedNodes = ns, mergedEdges = es\<rparr>,
                      invalidEdgeWarnings := map invalidEdgeWarning (filter (edgeDropped ns) es)\<rparr>))
   \<and> (\<forall>r. assembleGraph sel \<lparr>mergedNodes = ns, mergedEdges = es\<rparr> = Inr r \<longrightarrow>
        map edge (includedEdges r) = filter (\<lambda>e. \<not> edgeDropped ns e) es
        \<and> invalidEdgeWarnings r = map invalidEdgeWarning (filter (edgeDropped ns) es)
        \<and> (\<forall>(k, c) \<in> set (connectionMap r).
              inbound c = map inboundOf (filter (\<lambda>e. \<not> edgeDropped ns e \<and> edgeTarget e = k) es)
            \<and> outbound c = map outboundOf (filter (\<lambda>e. \<not> edgeDropped ns e \<and> edgeSource e = k) es)
            \<and> totalConnections c = length (inbound c) + length (outbound c)))
   \<and> ((\<forall>n \<in> set ns. \<exists>i. dataId n = Some i) \<and> (\<forall>e \<in> set es. data e \<noteq> None) \<longrightarrow>
        (\<exists>r. assembleGraph sel \<lparr>mergedNodes = ns, mergedEdges = es\<rparr> = Inr r))"
proof (intro conjI allI impI)
  show "assembleGraph sel \<lparr>mergedNodes = ns, mergedEdges = es\<rparr> =
     (case assembleGraph sel \<lparr>mergedNodes = ns, mergedEdges = filter (\<lambda>e. \<not> edgeDropped ns e) es\<rparr> of
        Inl err \<Rightarrow> Inl err
      | Inr r \<Rightarrow> Inr (r\<lparr>merged := \<lparr>mergedNodes = ns, mergedEdges = es\<rparr>,
                      invalidEdgeWarnings := map invalidEdgeWarning (filter (edgeDropped ns) es)\<rparr>))"
    using assembleGraph_filtered[of sel ns es] by (simp add: keptEdges_def)
next
  fix r assume r: "assembleGraph sel \<lparr>mergedNodes = ns, mergedEdges = es\<rparr> = Inr r"
  note D = assembleGraph_InrD[OF r, simplified]
  show "map edge (includedEdges r) = filter (\<lambda>e. \<not> edgeDropped ns e) es"
    by (simp only: D(4) included_edges keptEdges_def)
  show "invalidEdgeWarnings r = map invalidEdgeWarning (filter (edgeDropped ns) es)"
    by (rule D(5))
  show "\<forall>(k, c) \<in> set (connectionMap r).
              inbound c = map inboundOf (filter (\<lambda>e. \<not> edgeDropped ns e \<and> edgeTarget e = k) es)
            \<and> outbound c = map outboundOf (filter (\<lambda>e. \<not> edgeDropped ns e \<and> edgeSource e = k) es)
            \<and> totalConnections c = length (inbound c) + length (outbound c)"
  proof (clarify, intro conjI)
    fix k c assume kc: "(k, c) \<in> set (connectionMap r)"
    then have kc': "(k, c) \<in> set (indexOf ns es)" by (simp add: D(3))
    note F = indexOf_entry_fields[OF D(2) kc']
    show "inbound c = map inboundOf (filter (\<lambda>e. \<not> edgeDropped ns e \<and> edgeTarget e = k) es)"
      by (rule F(1))
    show "outbound c = map outboundOf (filter (\<lambda>e. \<not> edgeDropped ns e \<and> edgeSource e = k) es)"
      by (rule F(2))
    show "totalConnections c = length (inbound c) + length (outbound c)"
      by (rule F(3))
  qed
next
  assume "(\<forall>n \<in> set ns. \<exists>i. dataId n = Some i) \<and> (\<forall>e \<in> set es. data e \<noteq> None)"
  then show "\<exists>r. assembleGraph sel \<lparr>mergedNodes = ns, mergedEdges = es\<rparr> = Inr r"
    using assembleGraph_total by blast
qed

theorem unresolved_edges_are_dropped_witness:
  "edgeDropped [sampleNode ''A'', sampleNode ''B''] (sampleEdge ''e2'' ''A'' ''Z'' ''reads_from'')
   \<and> (\<exists>r. assembleGraph None
              \<lparr>mergedNodes = [sampleNode ''A'', sampleNode ''B''],
               mergedEdges = [sampleEdge ''e2'' ''A'' ''Z'' ''reads_from'',
                              sampleEdge ''e1'' ''A'' ''B'' ''writes_to'']\<rparr> = Inr r
          \<and> map edge (includedEdges r) = [sampleEdge ''e1'' ''A'' ''B'' ''writes_to'']
          \<and> invalidEdgeWarnings r = [InvalidEdge (Some ''A'') (Some ''Z'')])"
proof -
  let ?ns = "[sampleNode ''A'', sampleNode ''B'']"
  let ?bad = "sampleEdge ''e2'' ''A'' ''Z'' ''reads_from''"
  let ?good = "sampleEdge ''e1'' ''A'' ''B'' ''writes_to''"
  note T = unresolved_edges_are_dropped[of None ?ns "[?bad, ?good]"]
  have bad: "edgeDropped ?ns ?bad"
    by (simp add: edgeDropped_def edgeSource_def edgeTarget_def dataId_def sampleEdge_def
          sampleNode_def sampleLabelled_def)
  have good: "\<not> edgeDropped ?ns ?good"
    by (simp add: edgeDropped_def edgeSource_def edgeTarget_def dataId_def sampleEdge_def
          sampleNode_def sampleLabelled_def)
  have wf: "(\<forall>n \<in> set ?ns. \<exists>i. dataId n = Some i) \<and> (\<forall>e \<in> set [?bad, ?good]. data e \<noteq> None)"
    by (simp add: dataId_def sampleEdge_def sampleNode_def sampleLabelled_def)
  from T[THEN conjunct2, THEN conjunct2, rule_format, OF wf]
  obtain r where r: "assembleGraph None \<lparr>mergedNodes = ?ns, mergedEdges = [?bad, ?good]\<rparr> = Inr r" ..
  note R = T[THEN conjunct2, THEN conjunct1, rule_format, OF r]
  have incl: "map edge (includedEdges r) = [?good]"
    using R[THEN conjunct1] bad good by simp
  have warn: "invalidEdgeWarnings r = [InvalidEdge (Some ''A'') (Some ''Z'')]"
    using R[THEN conjunct2, THEN conjunct1] bad good
    by (simp add: invalidEdgeWarning_def edgeSource_def edgeTarget_def sampleEdge_def)
  from r incl warn
  have "\<exists>r. assembleGraph None \<lparr>mergedNodes = ?ns, mergedEdges = [?bad, ?good]\<rparr> = Inr r
          \<and> map edge (includedEdges r) = [?good]
          \<and> invalidEdgeWarnings r = [InvalidEdge (Some ''A'') (Some ''Z'')]"
    by (intro exI[of _ r] conjI)
  with bad show ?thesis by (rule conjI)
qed

section \<open>Claims about orphans, highlighting and the merged graph\<close>

lemma indexOf_distinct_nodes:
  assumes "distinct (map dataId ns)"
  shows "indexOf ns es =
     map (\<lambda>n. (dataId n, foldl (applyEdge (dataId n)) (emptyConnection n) (keptEdges ns es))) ns"
proof -
  have "initFold ns [] = map (\<lambda>n. (dataId n, emptyConnection n)) ns"
    using initFold_fresh[OF assms, of "[]"] by simp
  then show ?thesis by (simp add: indexOf_def comp_def)
qed

lemma styleOrphan_fields:
  "isOrphanFlag (styleOrphan v)" "dataId (styleOrphan v) = dataId v" "el_id (styleOrphan v) = el_id v"
  by (auto simp: isOrphanFlag_def styleOrphan_def dataId_def split: option.splits)

lemma edge_mkEdgeInfo [simp]: "edge (mkEdgeInfo e lv) = e"
  by (simp add: mkEdgeInfo_def)

lemma orphansOf_keyed:
  "(\<And>n. node (c n) = n) \<Longrightarrow>
   orphansOf (map (\<lambda>n. (f n, c n)) xs) = filter (\<lambda>n. totalConnections (c n) = 0) xs"
  by (induction xs) (auto simp: orphansOf_def)

lemma connectedOf_keyed:
  "(\<And>n. node (c n) = n) \<Longrightarrow>
   connectedOf (map (\<lambda>n. (f n, c n)) xs) = filter (\<lambda>n. \<not> totalConnections (c n) = 0) xs"
  by (induction xs) (auto simp: connectedOf_def)

text \<open>
  The orphan and connected nodes are the nodes of the connection objects without and
  with connections, in the order of the map, and each connection object belongs to a
  node of the graph with its key as id and has no connections exactly when no included
  edge touches that id.
\<close>

lemma connection_map_entries:
  assumes "assembleGraph sel g = Inr r"
  shows "orphanNodes r =
           map (node \<circ> snd) (filter (\<lambda>(k, c). totalConnections c = 0) (connectionMap r))"
    and "connectedNodes r =
           map (node \<circ> snd) (filter (\<lambda>(k, c). totalConnections c > 0) (connectionMap r))"
    and "\<forall>(k, c) \<in> set (connectionMap r).
           node c \<in> set (mergedNodes g) \<and> dataId (node c) = k
           \<and> (totalConnections c = 0 \<longleftrightarrow>
                (\<forall>ei \<in> set (includedEdges r).
                    edgeSource (edge ei) \<noteq> k \<and> edgeTarget (edge ei) \<noteq> k))"
proof -
  note D = assembleGraph_InrD[OF assms]
  show "orphanNodes r =
           map (node \<circ> snd) (filter (\<lambda>(k, c). totalConnections c = 0) (connectionMap r))"
    by (simp add: D(7) orphansOf_def)
  show "connectedNodes r =
           map (node \<circ> snd) (filter (\<lambda>(k, c). totalConnections c > 0) (connectionMap r))"
    by (simp add: D(6) connectedOf_def)
  have incl: "map edge (includedEdges r) = keptEdges (mergedNodes g) (mergedEdges g)"
    by (simp only: D(4) included_edges)
  show "\<forall>(k, c) \<in> set (connectionMap r).
           node c \<in> set (mergedNodes g) \<and> dataId (node c) = k
           \<and> (totalConnections c = 0 \<longleftrightarrow>
                (\<forall>ei \<in> set (includedEdges r).
                    edgeSource (edge ei) \<noteq> k \<and> edgeTarget (edge ei) \<noteq> k))"
  proof (clarify, intro conjI)
    fix k c assume "(k, c) \<in> set (connectionMap r)"
    then have kc: "(k, c) \<in> set (indexOf (mergedNodes g) (mergedEdges g))" by (simp add: D(3))
    note F = indexOf_entry_fields[OF D(2) kc]
    show "node c \<in> set (mergedNodes g)" by (rule F(5))
    show "dataId (node c) = k" by (rule F(4))
    have "set (keptEdges (mergedNodes g) (mergedEdges g)) = edge ` set (includedEdges r)"
      using incl[symmetric] by simp
    then show "totalConnections c = 0 \<longleftrightarrow>
                (\<forall>ei \<in> set (includedEdges r).
                    edgeSource (edge ei) \<noteq> k \<and> edgeTarget (edge ei) \<noteq> k)"
      unfolding F(3) F(1) F(2) kept_filter[symmetric]
      by (auto simp: filter_empty_conv)
  qed
qed

text \<open>
  The connection map by key: the connection object of an id is that of the last node
  of the list with that id, updated by the included edges; the keys of the map are
  pairwise distinct.
\<close>

lemma mapSet_map_of: "map_of (mapSet k v m) = (map_of m)(k \<mapsto> v)"
  by (induction m) (auto simp: fun_eq_iff)

lemma find_snoc:
  "find P (xs @ [x]) = (case find P xs of Some y \<Rightarrow> Some y | None \<Rightarrow> if P x then Some x else None)"
  by (induction xs) auto

lemma initFold_lookup:
  "map_of (initFold ns m) k =
     (case find (\<lambda>n. dataId n = k) (rev ns) of
        Some n \<Rightarrow> Some (emptyConnection n)
      | None \<Rightarrow> map_of m k)"
proof (induction ns arbitrary: m)
  case Nil
  show ?case by (simp add: initFold_def)
next
  case (Cons n ns)
  have "initFold (n # ns) m = initFold ns (mapSet (dataId n) (emptyConnection n) m)"
    by (simp add: initFold_def)
  then show ?case
    by (simp add: Cons.IH mapSet_map_of find_snoc split: option.splits)
qed

lemma map_of_map_values:
  "map_of (map (\<lambda>(k, c). (k, f k c)) m) k = map_option (f k) (map_of m k)"
  by (induction m) auto

lemma indexOf_lookup:
  assumes "lastWithId ns v"
  shows "map_of (indexOf ns es) (dataId v) =
           Some (foldl (applyEdge (dataId v)) (emptyConnection v) (keptEdges ns es))"
  using assms
  by (simp add: indexOf_def map_of_map_values initFold_lookup lastWithId_def)

lemma indexOf_keys_distinct: "distinct (map fst (indexOf ns es))"
proof -
  have "map fst (indexOf ns es) = map fst (initFold ns [])"
    by (simp add: indexOf_def comp_def case_prod_unfold)
  then show ?thesis by (simp add: initFold_distinct)
qed

lemma lastWithId_member: "lastWithId ns v \<Longrightarrow> v \<in> set ns"
  unfolding lastWithId_def by (metis find_Some_iff nth_mem set_rev)

lemma find_distinct_key:
  "distinct (map f xs) \<Longrightarrow> v \<in> set xs \<Longrightarrow> find (\<lambda>n. f n = f v) xs = Some v"
  by (induction xs) (auto simp: image_iff)

lemma distinct_lastWithId:
  "distinct (map dataId ns) \<Longrightarrow> v \<in> set ns \<Longrightarrow> lastWithId ns v"
  unfolding lastWithId_def
  by (rule find_distinct_key) (simp_all add: rev_map[symmetric])

text \<open>
  Claim C3, as amended. After a pass that returns, for every node \<open>v\<close> of the merged
  graph that is the last node with its \<^verbatim>\<open>data.id\<close>: the connection map holds a
  connection object for the id of \<open>v\<close> whose node is \<open>v\<close>; \<open>v\<close> is among the orphan
  nodes exactly when the \<open>totalConnections\<close> of that object is 0, which is exactly when
  no included edge has the id of \<open>v\<close> as source or as target; an orphan \<open>v\<close> is in the
  final node list as its tagged copy, any other \<open>v\<close> as it is; and the tagged copy has
  \<^verbatim>\<open>metadata.isOrphan === true\<close> and the ids of \<open>v\<close>. When the ids of the nodes are
  pairwise distinct, every node is the last with its id, and the final node list is
  as long as the node list.
\<close>

theorem orphans_are_classified_and_kept:
  assumes "assembleGraph sel g = Inr r"
  shows "(\<forall>v \<in> set (mergedNodes g). lastWithId (mergedNodes g) v \<longrightarrow>
         (\<exists>c. map_of (connectionMap r) (dataId v) = Some c \<and> node c = v
            \<and> (v \<in> set (orphanNodes r) \<longleftrightarrow> totalConnections c = 0)
            \<and> (totalConnections c = 0 \<longleftrightarrow>
                 (\<forall>ei \<in> set (includedEdges r).
                     edgeSource (edge ei) \<noteq> dataId v \<and> edgeTarget (edge ei) \<noteq> dataId v)))
         \<and> (v \<in> set (orphanNodes r) \<longrightarrow> styleOrphan v \<in> set (finalNodes r))
         \<and> (v \<notin> set (orphanNodes r) \<longrightarrow> v \<in> set (finalNodes r))
         \<and> isOrphanFlag (styleOrphan v) \<and> dataId (styleOrphan v) = dataId v
         \<and> el_id (styleOrphan v) = el_id v)
    \<and> (distinct (map dataId (mergedNodes g)) \<longrightarrow>
          (\<forall>v \<in> set (mergedNodes g). lastWithId (mergedNodes g) v)
          \<and> length (finalNodes r) = length (mergedNodes g))"
proof -
  let ?ns = "mergedNodes g" and ?es = "mergedEdges g"
  let ?kept = "keptEdges ?ns ?es"
  let ?c = "\<lambda>n. foldl (applyEdge (dataId n)) (emptyConnection n) ?kept"
  note D = assembleGraph_InrD[OF assms]
  note E = connection_map_entries[OF assms]
  have keys: "distinct (map fst (connectionMap r))"
    by (simp add: D(3) indexOf_keys_distinct)
  have each: "(\<exists>c. map_of (connectionMap r) (dataId v) = Some c \<and> node c = v
            \<and> (v \<in> set (orphanNodes r) \<longleftrightarrow> totalConnections c = 0)
            \<and> (totalConnections c = 0 \<longleftrightarrow>
                 (\<forall>ei \<in> set (includedEdges r).
                     edgeSource (edge ei) \<noteq> dataId v \<and> edgeTarget (edge ei) \<noteq> dataId v)))
         \<and> (v \<in> set (orphanNodes r) \<longrightarrow> styleOrphan v \<in> set (finalNodes r))
         \<and> (v \<notin> set (orphanNodes r) \<longrightarrow> v \<in> set (finalNodes r))"
    if last: "lastWithId ?ns v" for v
  proof -
    have look: "map_of (connectionMap r) (dataId v) = Some (?c v)"
      by (simp only: D(3) indexOf_lookup[OF last])
    then have ent: "(dataId v, ?c v) \<in> set (connectionMap r)"
      by (rule map_of_SomeD)
    have nd: "node (?c v) = v" by (simp add: emptyConnection_def)
    have own: "c' = ?c v" if "(k, c') \<in> set (connectionMap r)" "node c' = v" for k c'
    proof -
      from bspec[OF E(3) that(1)] that(2) have "k = dataId v" by simp
      with that(1) keys have "map_of (connectionMap r) (dataId v) = Some c'" by simp
      with look show ?thesis by simp
    qed
    have o: "v \<in> set (orphanNodes r) \<longleftrightarrow> totalConnections (?c v) = 0"
    proof
      assume "v \<in> set (orphanNodes r)"
      then obtain k c' where kc: "(k, c') \<in> set (connectionMap r)"
        and z: "totalConnections c' = 0" and n: "node c' = v"
        unfolding E(1) by auto
      from own[OF kc n] z show "totalConnections (?c v) = 0" by simp
    next
      assume "totalConnections (?c v) = 0"
      with ent nd show "v \<in> set (orphanNodes r)"
        unfolding E(1) by force
    qed
    have cn: "v \<notin> set (orphanNodes r) \<Longrightarrow> v \<in> set (connectedNodes r)"
    proof -
      assume "v \<notin> set (orphanNodes r)"
      with o have "totalConnections (?c v) > 0" by simp
      with ent nd show "v \<in> set (connectedNodes r)"
        unfolding E(2) by force
    qed
    have z: "totalConnections (?c v) = 0 \<longleftrightarrow>
        (\<forall>ei \<in> set (includedEdges r).
            edgeSource (edge ei) \<noteq> dataId v \<and> edgeTarget (edge ei) \<noteq> dataId v)"
      using bspec[OF E(3) ent] by simp
    have f1: "v \<in> set (orphanNodes r) \<longrightarrow> styleOrphan v \<in> set (finalNodes r)"
      by (simp add: D(8))
    have f2: "v \<notin> set (orphanNodes r) \<longrightarrow> v \<in> set (finalNodes r)"
      using cn by (simp add: D(8))
    from look nd o z
    have "\<exists>c. map_of (connectionMap r) (dataId v) = Some c \<and> node c = v
            \<and> (v \<in> set (orphanNodes r) \<longleftrightarrow> totalConnections c = 0)
            \<and> (totalConnections c = 0 \<longleftrightarrow>
                 (\<forall>ei \<in> set (includedEdges r).
                     edgeSource (edge ei) \<noteq> dataId v \<and> edgeTarget (edge ei) \<noteq> dataId v))"
      by (intro exI[of _ "?c v"] conjI)
    with f1 f2 show ?thesis by simp
  qed
  have len: "length (finalNodes r) = length ?ns" if dist: "distinct (map dataId ?ns)"
  proof -
    have M: "connectionMap r = map (\<lambda>n. (dataId n, ?c n)) ?ns"
      by (simp only: D(3) indexOf_distinct_nodes[OF dist])
    have orph: "orphanNodes r = filter (\<lambda>n. totalConnections (?c n) = 0) ?ns"
      unfolding D(7) M by (rule orphansOf_keyed) (simp add: emptyConnection_def)
    have conn: "connectedNodes r = filter (\<lambda>n. \<not> totalConnections (?c n) = 0) ?ns"
      unfolding D(6) M by (rule connectedOf_keyed) (simp add: emptyConnection_def)
    show ?thesis
      unfolding D(8) orph conn
      using sum_length_filter_compl[of "\<lambda>n. totalConnections (?c n) = 0" ?ns] by simp
  qed
  show ?thesis
  proof (intro conjI ballI impI)
    fix v assume "v \<in> set ?ns" and l: "lastWithId ?ns v"
    from each[OF l]
    show "\<exists>c. map_of (connectionMap r) (dataId v) = Some c \<and> node c = v
            \<and> (v \<in> set (orphanNodes r) \<longleftrightarrow> totalConnections c = 0)
            \<and> (totalConnections c = 0 \<longleftrightarrow>
                 (\<forall>ei \<in> set (includedEdges r).
                     edgeSource (edge ei) \<noteq> dataId v \<and> edgeTarget (edge ei) \<noteq> dataId v))"
      by simp
    assume "v \<in> set (orphanNodes r)"
    with each[OF l] show "styleOrphan v \<in> set (finalNodes r)" by simp
  next
    fix v assume "v \<in> set ?ns" and l: "lastWithId ?ns v" and "v \<notin> set (orphanNodes r)"
    with each[OF l] show "v \<in> set (finalNodes r)" by simp
  next
    fix v assume "distinct (map dataId ?ns)" "v \<in> set ?ns"
    then show "lastWithId ?ns v" by (rule distinct_lastWithId)
  next
    assume "distinct (map dataId ?ns)"
    then show "length (finalNodes r) = length ?ns" by (rule len)
  qed (simp_all add: styleOrphan_fields)
qed

lemma inboundOf_fields [simp]:
  "sourceId (inboundOf e) = edgeSource e" "in_edgeId (inboundOf e) = dataId e"
  by (simp_all add: inboundOf_def)

lemma outboundOf_fields [simp]:
  "targetId (outboundOf e) = edgeTarget e" "out_edgeId (outboundOf e) = dataId e"
  by (simp_all add: outboundOf_def)

lemma highlight_unfold:
  "truthy sel \<Longrightarrow> highlightNodes sel m =
      insert sel (sourceId ` set (connInbound m sel) \<union> targetId ` set (connOutbound m sel))"
  "truthy sel \<Longrightarrow> highlightEdges sel m =
      in_edgeId ` set (connInbound m sel) \<union> out_edgeId ` set (connOutbound m sel)"
  "\<not> truthy sel \<Longrightarrow> highlightNodes sel m = {}"
  "\<not> truthy sel \<Longrightarrow> highlightEdges sel m = {}"
  by (auto simp: highlightNodes_def highlightEdges_def connInbound_def connOutbound_def
        split: option.splits)

text \<open>The lists of the connection object of any key, in terms of the included edges.\<close>

lemma conn_lists_of_included:
  assumes "assembleGraph sel g = Inr r"
  shows "connInbound (connectionMap r) k =
           map inboundOf (filter (\<lambda>e. edgeTarget e = k) (map edge (includedEdges r)))"
    and "connOutbound (connectionMap r) k =
           map outboundOf (filter (\<lambda>e. edgeSource e = k) (map edge (includedEdges r)))"
proof -
  let ?ns = "mergedNodes g" and ?es = "mergedEdges g"
  note D = assembleGraph_InrD[OF assms]
  have incl: "map edge (includedEdges r) = keptEdges ?ns ?es"
    by (simp only: D(4) included_edges)
  have kd: "\<forall>e \<in> set (keptEdges ?ns ?es). data e \<noteq> None"
    using kept_have_data[OF D(2)] by (simp add: keptEdges_def)
  show "connInbound (connectionMap r) k =
           map inboundOf (filter (\<lambda>e. edgeTarget e = k) (map edge (includedEdges r)))"
  proof (cases "map_of (connectionMap r) k")
    case None
    then have "k \<notin> dataId ` set ?ns"
      by (simp add: D(3) map_of_None_keys indexOf_keys)
    then have "filter (\<lambda>e. edgeTarget e = k) (keptEdges ?ns ?es) = []"
      using kd by (auto simp: filter_empty_conv keptEdges_def edgeDropped_def)
    with None show ?thesis by (simp add: connInbound_def incl)
  next
    case (Some c)
    then have "(k, c) \<in> set (indexOf ?ns ?es)"
      using map_of_SomeD[of "connectionMap r" k c] by (simp add: D(3))
    from indexOf_entry_fields(1)[OF D(2) this] Some show ?thesis
      by (simp add: connInbound_def incl kept_filter)
  qed
  show "connOutbound (connectionMap r) k =
           map outboundOf (filter (\<lambda>e. edgeSource e = k) (map edge (includedEdges r)))"
  proof (cases "map_of (connectionMap r) k")
    case None
    then have "k \<notin> dataId ` set ?ns"
      by (simp add: D(3) map_of_None_keys indexOf_keys)
    then have "filter (\<lambda>e. edgeSource e = k) (keptEdges ?ns ?es) = []"
      using kd by (auto simp: filter_empty_conv keptEdges_def edgeDropped_def)
    with None show ?thesis by (simp add: connOutbound_def incl)
  next
    case (Some c)
    then have "(k, c) \<in> set (indexOf ?ns ?es)"
      using map_of_SomeD[of "connectionMap r" k c] by (simp add: D(3))
    from indexOf_entry_fields(2)[OF D(2) this] Some show ?thesis
      by (simp add: connOutbound_def incl kept_filter)
  qed
qed

text \<open>
  Claim C6. After a pass that returns: when \<^verbatim>\<open>selectedNodeId\<close> is not truthy (it is
  \<^verbatim>\<open>null\<close>, or the empty string) both highlight sets are empty. Otherwise the
  highlighted nodes are the selected id together with the \<open>sourceId\<close>s of the inbound
  and the \<open>targetId\<close>s of the outbound connections of the selected node's connection
  object, and the highlighted edges are the edge ids of these connections. These
  connections are those of the included edges that end or start at the selected node,
  so every included edge between a node \<open>u\<close> and the selected node has \<open>u\<close> among the
  highlighted nodes and its id among the highlighted edges, every highlighted edge id
  is the id of such an edge, and every highlighted node is the selected one or the
  other end of such an edge.
\<close>

theorem highlight_is_one_hop:
  assumes "assembleGraph sel g = Inr r"
  shows "(\<not> truthy sel \<longrightarrow> highlightedNodes r = {} \<and> highlightedEdges r = {})
   \<and> (truthy sel \<longrightarrow>
        highlightedNodes r = insert sel
          (sourceId ` set (connInbound (connectionMap r) sel)
           \<union> targetId ` set (connOutbound (connectionMap r) sel))
      \<and> highlightedEdges r =
          in_edgeId ` set (connInbound (connectionMap r) sel)
          \<union> out_edgeId ` set (connOutbound (connectionMap r) sel)
      \<and> connInbound (connectionMap r) sel =
          map inboundOf (filter (\<lambda>e. edgeTarget e = sel) (map edge (includedEdges r)))
      \<and> connOutbound (connectionMap r) sel =
          map outboundOf (filter (\<lambda>e. edgeSource e = sel) (map edge (includedEdges r)))
      \<and> (\<forall>ei \<in> set (includedEdges r).
            (edgeSource (edge ei) = sel \<longrightarrow>
               edgeTarget (edge ei) \<in> highlightedNodes r \<and> dataId (edge ei) \<in> highlightedEdges r)
          \<and> (edgeTarget (edge ei) = sel \<longrightarrow>
               edgeSource (edge ei) \<in> highlightedNodes r \<and> dataId (edge ei) \<in> highlightedEdges r))
      \<and> (\<forall>i \<in> highlightedEdges r. \<exists>ei \<in> set (includedEdges r).
            dataId (edge ei) = i \<and> (edgeSource (edge ei) = sel \<or> edgeTarget (edge ei) = sel))
      \<and> (\<forall>u \<in> highlightedNodes r. u = sel \<or> (\<exists>ei \<in> set (includedEdges r).
            (edgeSource (edge ei) = u \<and> edgeTarget (edge ei) = sel)
            \<or> (edgeSource (edge ei) = sel \<and> edgeTarget (edge ei) = u))))"
proof (intro conjI impI)
  note D = assembleGraph_InrD[OF assms]
  note L = conn_lists_of_included[OF assms, of sel]
  show "highlightedNodes r = {}" if "\<not> truthy sel"
    using that by (simp add: D(9) highlight_unfold)
  show "highlightedEdges r = {}" if "\<not> truthy sel"
    using that by (simp add: D(10) highlight_unfold)
  assume t: "truthy sel"
  show hn: "highlightedNodes r = insert sel
          (sourceId ` set (connInbound (connectionMap r) sel)
           \<union> targetId ` set (connOutbound (connectionMap r) sel))"
    by (simp only: D(9) highlight_unfold(1)[OF t])
  show he: "highlightedEdges r =
          in_edgeId ` set (connInbound (connectionMap r) sel)
          \<union> out_edgeId ` set (connOutbound (connectionMap r) sel)"
    by (simp only: D(10) highlight_unfold(2)[OF t])
  show "connInbound (connectionMap r) sel =
          map inboundOf (filter (\<lambda>e. edgeTarget e = sel) (map edge (includedEdges r)))"
    by (rule L(1))
  show "connOutbound (connectionMap r) sel =
          map outboundOf (filter (\<lambda>e. edgeSource e = sel) (map edge (includedEdges r)))"
    by (rule L(2))
  show "\<forall>ei \<in> set (includedEdges r).
            (edgeSource (edge ei) = sel \<longrightarrow>
               edgeTarget (edge ei) \<in> highlightedNodes r \<and> dataId (edge ei) \<in> highlightedEdges r)
          \<and> (edgeTarget (edge ei) = sel \<longrightarrow>
               edgeSource (edge ei) \<in> highlightedNodes r \<and> dataId (edge ei) \<in> highlightedEdges r)"
    unfolding hn he L by (auto simp: image_iff)
  show "\<forall>i \<in> highlightedEdges r. \<exists>ei \<in> set (includedEdges r).
            dataId (edge ei) = i \<and> (edgeSource (edge ei) = sel \<or> edgeTarget (edge ei) = sel)"
    unfolding he L by (auto simp: image_iff)
  show "\<forall>u \<in> highlightedNodes r. u = sel \<or> (\<exists>ei \<in> set (includedEdges r).
            (edgeSource (edge ei) = u \<and> edgeTarget (edge ei) = sel)
            \<or> (edgeSource (edge ei) = sel \<and> edgeTarget (edge ei) = u))"
    unfolding hn L by (auto simp: image_iff)
qed

lemmas sample_defs = sampleNode_def sampleLabelled_def sampleEdge_def scenarioNodes_def
  scenarioEdges_def scenarioGraph_def

lemma scenario_returns: "\<exists>r. assembleGraph sel scenarioGraph = Inr r"
  unfolding scenarioGraph_def
  by (rule assembleGraph_total) (simp_all add: sample_defs dataId_def)

lemma scenario_included:
  assumes "assembleGraph sel scenarioGraph = Inr r"
  shows "map edge (includedEdges r) = scenarioEdges"
proof -
  have "keptEdges scenarioNodes scenarioEdges = scenarioEdges"
    by (simp add: keptEdges_def edgeDropped_def edgeSource_def edgeTarget_def dataId_def sample_defs)
  with assembleGraph_InrD(4)[OF assms] show ?thesis
    by (simp add: scenarioGraph_def comp_def)
qed

theorem orphans_are_classified_and_kept_witness:
  "distinct (map dataId (mergedNodes scenarioGraph))
   \<and> lastWithId (mergedNodes scenarioGraph) (sampleNode ''D'')
   \<and> lastWithId (mergedNodes scenarioGraph) (sampleNode ''C'')
   \<and> (\<exists>r. assembleGraph None scenarioGraph = Inr r
          \<and> length (finalNodes r) = 4
          \<and> sampleNode ''D'' \<in> set (orphanNodes r)
          \<and> styleOrphan (sampleNode ''D'') \<in> set (finalNodes r)
          \<and> sampleNode ''C'' \<notin> set (orphanNodes r)
          \<and> sampleNode ''C'' \<in> set (finalNodes r))"
proof -
  have dist: "distinct (map dataId (mergedNodes scenarioGraph))"
    by (simp add: sample_defs dataId_def)
  have lastD: "lastWithId (mergedNodes scenarioGraph) (sampleNode ''D'')"
    and lastC: "lastWithId (mergedNodes scenarioGraph) (sampleNode ''C'')"
    by (simp_all add: lastWithId_def sample_defs dataId_def)
  obtain r where r: "assembleGraph None scenarioGraph = Inr r"
    using scenario_returns by blast
  note T = orphans_are_classified_and_kept[OF r]
  have len: "length (finalNodes r) = 4"
    using T[THEN conjunct2, THEN mp, OF dist, THEN conjunct2]
    by (simp add: scenarioGraph_def scenarioNodes_def)
  have inD: "sampleNode ''D'' \<in> set (mergedNodes scenarioGraph)"
    and inC: "sampleNode ''C'' \<in> set (mergedNodes scenarioGraph)"
    by (simp_all add: scenarioGraph_def scenarioNodes_def)
  have untouched: "\<forall>ei \<in> set (includedEdges r).
      edgeSource (edge ei) \<noteq> dataId (sampleNode ''D'') \<and> edgeTarget (edge ei) \<noteq> dataId (sampleNode ''D'')"
  proof -
    have "\<forall>e \<in> set (map edge (includedEdges r)).
      edgeSource e \<noteq> dataId (sampleNode ''D'') \<and> edgeTarget e \<noteq> dataId (sampleNode ''D'')"
      unfolding scenario_included[OF r]
      by (simp add: sample_defs edgeSource_def edgeTarget_def dataId_def)
    then show ?thesis by simp
  qed
  have touched: "\<not> (\<forall>ei \<in> set (includedEdges r).
      edgeSource (edge ei) \<noteq> dataId (sampleNode ''C'') \<and> edgeTarget (edge ei) \<noteq> dataId (sampleNode ''C''))"
  proof -
    have "\<not> (\<forall>e \<in> set (map edge (includedEdges r)).
      edgeSource e \<noteq> dataId (sampleNode ''C'') \<and> edgeTarget e \<noteq> dataId (sampleNode ''C''))"
      unfolding scenario_included[OF r]
      by (simp add: sample_defs edgeSource_def edgeTarget_def dataId_def)
    then show ?thesis by simp
  qed
  from T[THEN conjunct1, rule_format, OF inD lastD] untouched
  have oD: "sampleNode ''D'' \<in> set (orphanNodes r)"
    and fD: "styleOrphan (sampleNode ''D'') \<in> set (finalNodes r)"
    by auto
  from T[THEN conjunct1, rule_format, OF inC lastC] touched
  have oC: "sampleNode ''C'' \<notin> set (orphanNodes r)"
    and fC: "sampleNode ''C'' \<in> set (finalNodes r)"
    by auto
  from r len oD fD oC fC
  have "\<exists>r. assembleGraph None scenarioGraph = Inr r
          \<and> length (finalNodes r) = 4
          \<and> sampleNode ''D'' \<in> set (orphanNodes r)
          \<and> styleOrphan (sampleNode ''D'') \<in> set (finalNodes r)
          \<and> sampleNode ''C'' \<notin> set (orphanNodes r)
          \<and> sampleNode ''C'' \<in> set (finalNodes r)"
    by (intro exI[of _ r] conjI)
  with dist lastD lastC show ?thesis by (intro conjI)
qed

text \<open>
  Claim C3 as stated fails for a node whose \<^verbatim>\<open>data.id\<close> a later node shares. With an
  active selection the merged graph is the base response as it came, here the nodes
  X (labelled first), Y and X (labelled second) and no edge. The pass returns; the
  connection map has the two keys X and Y, both without connections; the first X
  touches no included edge, yet it is not among the orphan nodes, and neither it nor
  its tagged copy is in the final node list.
\<close>

theorem orphans_shadowed_node_counterexample:
  "hasActiveSelections (selectedObjects focusedClosure)
   \<and> map_sum id (mergedNodes \<circ> merged) (updateGraph fetchBaseDuplicate focusedClosure)
       = Inr [sampleLabelled ''X'' ''first'', sampleNode ''Y'', sampleLabelled ''X'' ''second'']
   \<and> map_sum id includedEdges (updateGraph fetchBaseDuplicate focusedClosure) = Inr []
   \<and> map_sum id (map (totalConnections \<circ> snd) \<circ> connectionMap)
        (updateGraph fetchBaseDuplicate focusedClosure) = Inr [0, 0]
   \<and> map_sum id orphanNodes (updateGraph fetchBaseDuplicate focusedClosure)
       = Inr [sampleLabelled ''X'' ''second'', sampleNode ''Y'']
   \<and> map_sum id finalNodes (updateGraph fetchBaseDuplicate focusedClosure)
       = Inr [styleOrphan (sampleLabelled ''X'' ''second''), styleOrphan (sampleNode ''Y'')]
   \<and> sampleLabelled ''X'' ''first'' \<notin> set [sampleLabelled ''X'' ''second'', sampleNode ''Y'']
   \<and> styleOrphan (sampleLabelled ''X'' ''first'')
       \<notin> set [styleOrphan (sampleLabelled ''X'' ''second''), styleOrphan (sampleNode ''Y'')]
   \<and> sampleLabelled ''X'' ''first''
       \<notin> set [styleOrphan (sampleLabelled ''X'' ''second''), styleOrphan (sampleNode ''Y'')]"
proof -
  have g: "mergedGraphData (selectedObjects focusedClosure)
             (loadGraphData fetchBaseDuplicate (showAllObjects focusedClosure)
                (selectedObjects focusedClosure))
             (extraGraph focusedClosure)
           = \<lparr>mergedNodes = [sampleLabelled ''X'' ''first'', sampleNode ''Y'',
                              sampleLabelled ''X'' ''second''],
              mergedEdges = []\<rparr>"
    by (simp add: mergedGraphData_def loadGraphData_def fetchBaseDuplicate_def focusedClosure_def
          focusedSelection_def hasActiveSelections_def orEmpty_def)
  have a: "hasActiveSelections (selectedObjects focusedClosure)"
    by (simp add: focusedClosure_def focusedSelection_def hasActiveSelections_def)
  have u: "updateGraph fetchBaseDuplicate focusedClosure =
        Inr \<lparr>merged = \<lparr>mergedNodes = [sampleLabelled ''X'' ''first'', sampleNode ''Y'',
                                       sampleLabelled ''X'' ''second''],
                       mergedEdges = []\<rparr>,
             connectionMap = [(Some ''X'', emptyConnection (sampleLabelled ''X'' ''second'')),
                              (Some ''Y'', emptyConnection (sampleNode ''Y''))],
             includedEdges = [],
             invalidEdgeWarnings = [],
             connectedNodes = [],
             orphanNodes = [sampleLabelled ''X'' ''second'', sampleNode ''Y''],
             finalNodes = [styleOrphan (sampleLabelled ''X'' ''second''), styleOrphan (sampleNode ''Y'')],
             highlightedNodes = {Some ''A''},
             highlightedEdges = {}\<rparr>"
    unfolding updateGraph_def g
    by (simp add: assembleGraph_def processEdges.simps orphansOf_def connectedOf_def
          highlightNodes_def highlightEdges_def truthy_def emptyConnection_def dataId_def
          focusedClosure_def sampleNode_def sampleLabelled_def)
  show ?thesis
    unfolding u
    by (simp add: a emptyConnection_def styleOrphan_def sampleNode_def sampleLabelled_def)
qed

theorem highlight_is_one_hop_witness:
  "truthy (Some ''B'')
   \<and> (\<exists>r. assembleGraph (Some ''B'') scenarioGraph = Inr r
          \<and> highlightedNodes r = {Some ''A'', Some ''B''}
          \<and> highlightedEdges r = {Some ''e1''})
   \<and> \<not> truthy None
   \<and> (\<exists>r. assembleGraph None scenarioGraph = Inr r
          \<and> highlightedNodes r = {} \<and> highlightedEdges r = {})"
proof -
  have t: "truthy (Some ''B'')" and f: "\<not> truthy None"
    by (simp_all add: truthy_def)
  obtain r where r: "assembleGraph (Some ''B'') scenarioGraph = Inr r"
    using scenario_returns by blast
  obtain r0 where r0: "assembleGraph None scenarioGraph = Inr r0"
    using scenario_returns by blast
  note T = highlight_is_one_hop[OF r, THEN conjunct2, rule_format, OF t]
  have hn: "highlightedNodes r = {Some ''A'', Some ''B''}"
    using T[THEN conjunct1]
    unfolding T[THEN conjunct2, THEN conjunct2, THEN conjunct1]
      T[THEN conjunct2, THEN conjunct2, THEN conjunct2, THEN conjunct1]
      scenario_included[OF r]
    by (auto simp: sample_defs edgeSource_def edgeTarget_def dataId_def)
  have he: "highlightedEdges r = {Some ''e1''}"
    using T[THEN conjunct2, THEN conjunct1]
    unfolding T[THEN conjunct2, THEN conjunct2, THEN conjunct1]
      T[THEN conjunct2, THEN conjunct2, THEN conjunct2, THEN conjunct1]
      scenario_included[OF r]
    by (auto simp: sample_defs edgeSource_def edgeTarget_def dataId_def)
  note T0 = highlight_is_one_hop[OF r0, THEN conjunct1, rule_format, OF f]
  from r hn he
  have a: "\<exists>r. assembleGraph (Some ''B'') scenarioGraph = Inr r
          \<and> highlightedNodes r = {Some ''A'', Some ''B''}
          \<and> highlightedEdges r = {Some ''e1''}"
    by (intro exI[of _ r] conjI)
  from r0 T0
  have b: "\<exists>r. assembleGraph None scenarioGraph = Inr r
          \<and> highlightedNodes r = {} \<and> highlightedEdges r = {}"
    by (intro exI[of _ r0] conjI) simp_all
  from t a f b show ?thesis by (intro conjI)
qed

text \<open>
  Claim C1, as amended. \<^verbatim>\<open>updateGraph\<close> assembles the merged graph it builds from the
  freshly loaded base graph and the \<^verbatim>\<open>extraGraph\<close> of its closure. When no selection
  is active, that graph is the first-write-wins merge: \<open>dedupeById\<close> of the base nodes
  followed by the extra nodes, and likewise for the edges. When a selection is active,
  it is the base graph alone, \<^verbatim>\<open>baseGraphData.nodes || []\<close> and
  \<^verbatim>\<open>baseGraphData.edges || []\<close>, neither merged with \<^verbatim>\<open>extraGraph\<close> nor
  deduplicated.
\<close>

theorem updateGraph_merged_graph:
  "updateGraph fetchGraphData cl =
     assembleGraph (selectedNodeId cl)
       (mergedGraphData (selectedObjects cl)
          (loadGraphData fetchGraphData (showAllObjects cl) (selectedObjects cl)) (extraGraph cl))
   \<and> (\<not> hasActiveSelections sel \<longrightarrow>
        mergedGraphData sel baseGraphData extra =
          \<lparr>mergedNodes = dedupeById (orEmpty (nodes baseGraphData) @ orEmpty (nodes extra)),
           mergedEdges = dedupeById (orEmpty (edges baseGraphData) @ orEmpty (edges extra))\<rparr>)
   \<and> (hasActiveSelections sel \<longrightarrow>
        mergedGraphData sel baseGraphData extra =
          \<lparr>mergedNodes = orEmpty (nodes baseGraphData),
           mergedEdges = orEmpty (edges baseGraphData)\<rparr>)
   \<and> (\<forall>r. updateGraph fetchGraphData cl = Inr r \<longrightarrow>
        merged r = mergedGraphData (selectedObjects cl)
          (loadGraphData fetchGraphData (showAllObjects cl) (selectedObjects cl)) (extraGraph cl))"
proof -
  have "merged r = g" if "assembleGraph s g = Inr r" for s g r
    using that by (auto simp: assembleGraph_def split: sum.splits)
  then show ?thesis
    by (auto simp: updateGraph_def mergedGraphData_def)
qed

theorem updateGraph_merged_graph_witness:
  "\<not> hasActiveSelections []
   \<and> mergedGraphData [] \<lparr>nodes = Some [sampleNode ''A''], edges = Some []\<rparr>
        \<lparr>nodes = Some [sampleNode ''B'', sampleLabelled ''A'' ''other''], edges = None\<rparr>
      = \<lparr>mergedNodes = [sampleNode ''A'', sampleNode ''B''], mergedEdges = []\<rparr>
   \<and> hasActiveSelections focusedSelection
   \<and> mergedGraphData focusedSelection \<lparr>nodes = Some [sampleNode ''A''], edges = Some []\<rparr>
        \<lparr>nodes = Some [sampleNode ''B'', sampleLabelled ''A'' ''other''], edges = None\<rparr>
      = \<lparr>mergedNodes = [sampleNode ''A''], mergedEdges = []\<rparr>"
proof -
  let ?base = "\<lparr>nodes = Some [sampleNode ''A''], edges = Some []\<rparr>"
  let ?extra = "\<lparr>nodes = Some [sampleNode ''B'', sampleLabelled ''A'' ''other''], edges = None\<rparr>"
  have n: "\<not> hasActiveSelections []" and a: "hasActiveSelections focusedSelection"
    by (simp_all add: hasActiveSelections_def focusedSelection_def)
  have d: "dedupeById ([sampleNode ''A''] @ [sampleNode ''B'', sampleLabelled ''A'' ''other''])
        = [sampleNode ''A'', sampleNode ''B'']" "dedupeById [] = []"
    by (simp_all add: dedupeById_def elemId_def dataId_def truthy_def sample_defs Let_def)
  note T = updateGraph_merged_graph[of fetchBaseA focusedClosure _ ?base ?extra]
  have m1: "mergedGraphData [] ?base ?extra
      = \<lparr>mergedNodes = [sampleNode ''A'', sampleNode ''B''], mergedEdges = []\<rparr>"
    using T[of "[]", THEN conjunct2, THEN conjunct1, rule_format, OF n] d
    by (simp add: orEmpty_def)
  have m2: "mergedGraphData focusedSelection ?base ?extra
      = \<lparr>mergedNodes = [sampleNode ''A''], mergedEdges = []\<rparr>"
    using T[of focusedSelection, THEN conjunct2, THEN conjunct2, THEN conjunct1, rule_format, OF a]
    by (simp add: orEmpty_def)
  from n m1 a m2 show ?thesis by (intro conjI)
qed

text \<open>
  Claim C1 as stated fails for an active selection: with the selection of one data
  extension, a base graph of the node A and an \<^verbatim>\<open>extraGraph\<close> of the node B,
  \<^verbatim>\<open>updateGraph\<close> assembles the graph of A alone, while the merge of the two is A, B.
\<close>

theorem updateGraph_merge_counterexample:
  "hasActiveSelections (selectedObjects focusedClosure)
   \<and> updateGraph fetchBaseA focusedClosure
       = assembleGraph (Some ''A'') \<lparr>mergedNodes = [sampleNode ''A''], mergedEdges = []\<rparr>
   \<and> dedupeById (orEmpty (nodes \<lparr>nodes = Some [sampleNode ''A''], edges = Some []\<rparr>)
                  @ orEmpty (nodes (extraGraph focusedClosure)))
       = [sampleNode ''A'', sampleNode ''B'']
   \<and> mergedNodes (mergedGraphData (selectedObjects focusedClosure)
                    (loadGraphData fetchBaseA (showAllObjects focusedClosure)
                       (selectedObjects focusedClosure))
                    (extraGraph focusedClosure))
       \<noteq> dedupeById (orEmpty (nodes (loadGraphData fetchBaseA (showAllObjects focusedClosure)
                                        (selectedObjects focusedClosure)))
                      @ orEmpty (nodes (extraGraph focusedClosure)))"
  by (simp add: updateGraph_def mergedGraphData_def loadGraphData_def fetchBaseA_def
        focusedClosure_def focusedSelection_def hasActiveSelections_def orEmpty_def
        dedupeById_def elemId_def dataId_def truthy_def sample_defs Let_def)

text \<open>
  When two nodes of the graph share an id, \<^verbatim>\<open>Map.set\<close> replaces the connection
  object of the first by that of the second, and only the second node reaches the
  final node list.
\<close>

lemma duplicate_node_ids_keep_last:
  "\<exists>r. assembleGraph None
          \<lparr>mergedNodes = [sampleLabelled ''X'' ''first'', sampleLabelled ''X'' ''second''],
           mergedEdges = []\<rparr> = Inr r
       \<and> orphanNodes r = [sampleLabelled ''X'' ''second'']
       \<and> finalNodes r = [styleOrphan (sampleLabelled ''X'' ''second'')]"
  by (simp add: assembleGraph_closed indexOf_def initFold_def keptEdges_def orphansOf_def
        connectedOf_def emptyConnection_def dataId_def sampleLabelled_def)

section \<open>Claims about the expansion engine\<close>

lemma browsing_simps [simp]:
  "selectedNodeId (browsing sel g) = sel" "extraGraph (browsing sel g) = g"
  by (simp_all add: browsing_def)

lemma visitNode_sess [simp]: "sess (visitNode n tr) = sess tr"
  by (simp add: visitNode_def split: option.splits)

lemma visitNodes_sess [simp]: "sess (foldl (\<lambda>t n. visitNode n t) tr ns) = sess tr"
  by (induction ns arbitrary: tr) simp_all

lemma expandNode_requests [simp]:
  "requests (sess (expandNode fetch x tr)) = requests (sess tr)"
  by (simp add: expandNode_def split: sum.splits)

lemma expandNodes_requests [simp]:
  "requests (sess (foldl (\<lambda>t x. expandNode fetch x t) tr xs)) = requests (sess tr)"
  by (induction xs arbitrary: tr) simp_all

lemma expandLevel_requests [simp]:
  "requests (sess (expandLevel fetch settle frontier tr)) = requests (sess tr) @ [frontier]"
  by (simp add: expandLevel_def)





lemma dedupeById_two:
  "truthy (elemId a) \<Longrightarrow> truthy (elemId b) \<Longrightarrow> elemId a \<noteq> elemId b \<Longrightarrow>
   dedupeById [a] = [a] \<and> dedupeById [a, b] = [a, b]"
  by (simp add: dedupeById_firstSeen)

lemma elemId_of_dataId: "dataId n = Some (c # cs) \<Longrightarrow> elemId n = Some (c # cs)"
  by (simp add: elemId_def truthy_def)

lemma truthyIds_firstSeen: "truthyIds (firstSeen {} xs) = truthyIds xs"
  using firstSeen_ids[of "{}" xs] by (auto simp: truthyIds_def)

lemma dedupeById_merge_left: "dedupeById (dedupeById xs @ ys) = dedupeById (xs @ ys)"
  by (simp add: dedupeById_firstSeen firstSeen_append firstSeen_idem truthyIds_firstSeen)

text \<open>
  Claim C2, as amended. Running the recursive expansion from A to depth 2, from an
  empty \<^verbatim>\<open>extraGraph\<close>, when the fetch for A returns the one node B and the fetch
  for B returns the one node C (each level has one fetch, so there is one order in
  which its fetches settle): the traversal returns after two levels, having fetched
  A and then B; \<^verbatim>\<open>extraGraph\<close> then holds exactly the fetched nodes B and C (A is in
  no response and is not added), with the fetched edges merged; and the frontier after
  the second level is C, the node found at that level and not yet expanded.
\<close>

theorem expand_chain_two_levels:
  assumes "selectedNodeId cl = Some ''A''"
    and "nodes (extraGraph cl) = Some []"
    and "extraGraphState st = emptyGraph"
    and "fetch ''A'' = Inr \<lparr>nodes = Some [nB], edges = eA\<rparr>"
    and "fetch ''B'' = Inr \<lparr>nodes = Some [nC], edges = eB\<rparr>"
    and "dataId nB = Some ''B''" and "dataId nC = Some ''C''"
    and "settle [''A''] = [''A'']" and "settle [''B''] = [''B'']"
  shows "(case expandTraversal fetch settle cl 2 ''A'' st of
            (frontier, depth, tr) \<Rightarrow>
              frontier = [''C''] \<and> depth = 2 \<and> visited tr = {Some ''B'', Some ''C''}
              \<and> requests (sess tr) = requests st @ [ [''A''], [''B''] ])
     \<and> nodes (extraGraphState (expandSelectedNodeRecursively fetch settle outcome cl (Some 2) st))
         = Some [nB, nC]
     \<and> edges (extraGraphState (expandSelectedNodeRecursively fetch settle outcome cl (Some 2) st))
         = Some (dedupeById (orEmpty eA @ orEmpty eB))"
proof -
  have idB: "elemId nB = Some ''B''" and idC: "elemId nC = Some ''C''"
    using assms(6,7) by (simp_all add: elemId_of_dataId)
  have dd: "dedupeById [nB] = [nB]" "dedupeById [nB, nC] = [nB, nC]"
    using dedupeById_two[of nB nC] idB idC by (simp_all add: truthy_def)
  have ee: "dedupeById (dedupeById (orEmpty eA) @ orEmpty eB) = dedupeById (orEmpty eA @ orEmpty eB)"
    by (rule dedupeById_merge_left)
  let ?tr0 = "\<lparr>visited = set (filter truthy (map dataId (orEmpty (nodes (extraGraph cl))))),
        nextFrontier = [], sess = st\<lparr>isExpanding := True\<rparr>\<rparr>"
  have l1: "expandLevel fetch settle [''A''] ?tr0 =
      \<lparr>visited = {Some ''B''}, nextFrontier = [''B''],
       sess = st\<lparr>isExpanding := True, requests := requests st @ [ [''A''] ],
                 extraGraphState := \<lparr>nodes = Some [nB], edges = Some (dedupeById (orEmpty eA))\<rparr>\<rparr>\<rparr>"
    using assms dd
    by (simp add: expandLevel_def expandNode_def visitNode_def setAdd_def mergeInto_def
          orEmpty_def emptyGraph_def)
  have l2: "expandLevel fetch settle [''B'']
      \<lparr>visited = {Some ''B''}, nextFrontier = [''B''],
       sess = st\<lparr>isExpanding := True, requests := requests st @ [ [''A''] ],
                 extraGraphState := \<lparr>nodes = Some [nB], edges = Some (dedupeById (orEmpty eA))\<rparr>\<rparr>\<rparr> =
      \<lparr>visited = {Some ''B'', Some ''C''}, nextFrontier = [''C''],
       sess = st\<lparr>isExpanding := True, requests := requests st @ [ [''A''], [''B''] ],
                 extraGraphState := \<lparr>nodes = Some [nB, nC],
                                      edges = Some (dedupeById (orEmpty eA @ orEmpty eB))\<rparr>\<rparr>\<rparr>"
    using assms dd ee
    by (simp add: expandLevel_def expandNode_def visitNode_def setAdd_def mergeInto_def
          orEmpty_def insert_commute)
  have run: "expandTraversal fetch settle cl 2 ''A'' st = ([''C''], 2,
      \<lparr>visited = {Some ''B'', Some ''C''}, nextFrontier = [''C''],
       sess = st\<lparr>isExpanding := True, requests := requests st @ [ [''A''], [''B''] ],
                 extraGraphState := \<lparr>nodes = Some [nB, nC],
                                      edges = Some (dedupeById (orEmpty eA @ orEmpty eB))\<rparr>\<rparr>\<rparr>)"
    unfolding expandTraversal_def
    apply (subst expandLoop.simps)
    apply (simp only: l1)
    apply (subst expandLoop.simps)
    apply (simp add: l2)
    apply (subst expandLoop.simps)
    apply simp
    done
  show ?thesis
    using assms(1)
    by (simp add: run expandSelectedNodeRecursively_def split: option.splits)
qed

theorem expand_chain_two_levels_witness:
  "selectedNodeId (browsing (Some ''A'') emptyGraph) = Some ''A''
   \<and> nodes (extraGraph (browsing (Some ''A'') emptyGraph)) = Some []
   \<and> extraGraphState emptySession = emptyGraph
   \<and> fetchChain ''A'' = Inr \<lparr>nodes = Some [sampleNode ''B''],
                              edges = Some [sampleEdge ''e1'' ''A'' ''B'' ''writes_to'']\<rparr>
   \<and> fetchChain ''B'' = Inr \<lparr>nodes = Some [sampleNode ''C''],
                              edges = Some [sampleEdge ''e2'' ''B'' ''C'' ''writes_to'']\<rparr>
   \<and> dataId (sampleNode ''B'') = Some ''B'' \<and> dataId (sampleNode ''C'') = Some ''C''
   \<and> inIssueOrder [''A''] = [''A''] \<and> inIssueOrder [''B''] = [''B'']
   \<and> fst (expandTraversal fetchChain inIssueOrder (browsing (Some ''A'') emptyGraph) 2 ''A'' emptySession)
       = [''C'']
   \<and> fst (snd (expandTraversal fetchChain inIssueOrder (browsing (Some ''A'') emptyGraph) 2 ''A'' emptySession))
       = 2
   \<and> nodes (extraGraphState (expandSelectedNodeRecursively fetchChain inIssueOrder (Some TypeError)
               (browsing (Some ''A'') emptyGraph) (Some 2) emptySession))
       = Some [sampleNode ''B'', sampleNode ''C'']"
proof -
  have h: "selectedNodeId (browsing (Some ''A'') emptyGraph) = Some ''A''"
    "nodes (extraGraph (browsing (Some ''A'') emptyGraph)) = Some []"
    "extraGraphState emptySession = emptyGraph"
    "fetchChain ''A'' = Inr \<lparr>nodes = Some [sampleNode ''B''],
                              edges = Some [sampleEdge ''e1'' ''A'' ''B'' ''writes_to'']\<rparr>"
    "fetchChain ''B'' = Inr \<lparr>nodes = Some [sampleNode ''C''],
                              edges = Some [sampleEdge ''e2'' ''B'' ''C'' ''writes_to'']\<rparr>"
    "dataId (sampleNode ''B'') = Some ''B''" "dataId (sampleNode ''C'') = Some ''C''"
    "inIssueOrder [''A''] = [''A'']" "inIssueOrder [''B''] = [''B'']"
    by (simp_all add: browsing_def emptyGraph_def emptySession_def fetchChain_def dataId_def
          sampleNode_def sampleLabelled_def inIssueOrder_def)
  note T = expand_chain_two_levels[OF h, where outcome = "Some TypeError"]
  from T[THEN conjunct1]
  have f: "fst (expandTraversal fetchChain inIssueOrder (browsing (Some ''A'') emptyGraph) 2 ''A'' emptySession)
             = [''C'']"
    and d: "fst (snd (expandTraversal fetchChain inIssueOrder (browsing (Some ''A'') emptyGraph) 2 ''A''
                        emptySession)) = 2"
    by (simp_all split: prod.splits)
  from h f d T[THEN conjunct2, THEN conjunct1] show ?thesis by (intro conjI)
qed

text \<open>
  Claim C2 as stated fails on the scenario it describes: after the run the frontier
  is C, not empty, and \<^verbatim>\<open>extraGraph\<close> holds the nodes B and C, not A.
\<close>

theorem expand_chain_counterexample:
  "fst (expandTraversal fetchChain inIssueOrder (browsing (Some ''A'') emptyGraph) 2 ''A'' emptySession)
     = [''C'']
   \<and> nodes (extraGraphState (expandSelectedNodeRecursively fetchChain inIssueOrder None
               (browsing (Some ''A'') emptyGraph) (Some 2) emptySession))
     = Some [sampleNode ''B'', sampleNode ''C'']
   \<and> map dataId [sampleNode ''B'', sampleNode ''C''] = [Some ''B'', Some ''C'']"
proof -
  have run: "expandTraversal fetchChain inIssueOrder (browsing (Some ''A'') emptyGraph) 2 ''A'' emptySession
     = ([''C''], 2,
        \<lparr>visited = {Some ''B'', Some ''C''}, nextFrontier = [''C''],
         sess = \<lparr>extraGraphState =
                   \<lparr>nodes = Some [sampleNode ''B'', sampleNode ''C''],
                    edges = Some [sampleEdge ''e1'' ''A'' ''B'' ''writes_to'',
                                  sampleEdge ''e2'' ''B'' ''C'' ''writes_to'']\<rparr>,
                 isExpanding = True, console = [],
                 requests = [ [''A''], [''B''] ]\<rparr>\<rparr>)"
    unfolding expandTraversal_def
    apply (subst expandLoop.simps)
    apply (simp add: expandLevel_def expandNode_def visitNode_def setAdd_def mergeInto_def
          orEmpty_def emptyGraph_def emptySession_def browsing_def fetchChain_def inIssueOrder_def
          dedupeById_def elemId_def dataId_def truthy_def sampleNode_def sampleLabelled_def
          sampleEdge_def Let_def insert_commute)
    apply (subst expandLoop.simps)
    apply (simp add: expandLevel_def expandNode_def visitNode_def setAdd_def mergeInto_def
          orEmpty_def emptyGraph_def emptySession_def browsing_def fetchChain_def inIssueOrder_def
          dedupeById_def elemId_def dataId_def truthy_def sampleNode_def sampleLabelled_def
          sampleEdge_def Let_def insert_commute)
    apply (subst expandLoop.simps)
    apply (simp add: insert_commute)
    done
  show ?thesis
    by (simp add: run expandSelectedNodeRecursively_def dataId_def sampleNode_def
          sampleLabelled_def)
qed

text \<open>
  When each response also holds the expanded node itself, \<^verbatim>\<open>extraGraph\<close> ends with
  A, B and C; the frontier after the second level is C all the same.
\<close>

lemma expand_chain_with_self:
  "fst (expandTraversal fetchChainSelf inIssueOrder (browsing (Some ''A'') emptyGraph) 2 ''A'' emptySession)
     = [''C'']
   \<and> nodes (extraGraphState (expandSelectedNodeRecursively fetchChainSelf inIssueOrder None
               (browsing (Some ''A'') emptyGraph) (Some 2) emptySession))
     = Some [sampleNode ''A'', sampleNode ''B'', sampleNode ''C'']"
proof -
  have run: "expandTraversal fetchChainSelf inIssueOrder (browsing (Some ''A'') emptyGraph) 2 ''A'' emptySession
     = ([''C''], 2,
        \<lparr>visited = {Some ''A'', Some ''B'', Some ''C''}, nextFrontier = [''C''],
         sess = \<lparr>extraGraphState = \<lparr>nodes = Some [sampleNode ''A'', sampleNode ''B'', sampleNode ''C''],
                                     edges = Some []\<rparr>,
                 isExpanding = True, console = [],
                 requests = [ [''A''], [''A'', ''B''] ]\<rparr>\<rparr>)"
    unfolding expandTraversal_def
    apply (subst expandLoop.simps)
    apply (simp add: expandLevel_def expandNode_def visitNode_def setAdd_def mergeInto_def
          orEmpty_def emptyGraph_def emptySession_def browsing_def fetchChainSelf_def inIssueOrder_def
          dedupeById_def elemId_def dataId_def truthy_def sampleNode_def sampleLabelled_def
          Let_def insert_commute)
    apply (subst expandLoop.simps)
    apply (simp add: expandLevel_def expandNode_def visitNode_def setAdd_def mergeInto_def
          orEmpty_def emptyGraph_def emptySession_def browsing_def fetchChainSelf_def inIssueOrder_def
          dedupeById_def elemId_def dataId_def truthy_def sampleNode_def sampleLabelled_def
          Let_def insert_commute)
    apply (subst expandLoop.simps)
    apply (simp add: insert_commute)
    done
  show ?thesis
    by (simp add: run expandSelectedNodeRecursively_def)
qed

lemma visitNode_same:
  "sameTraversal tr tr' \<Longrightarrow> sameTraversal (visitNode n tr) (visitNode n tr')"
  by (auto simp: sameTraversal_def visitNode_def split: option.splits)

lemma visitNodes_same:
  "sameTraversal tr tr' \<Longrightarrow>
   sameTraversal (foldl (\<lambda>t n. visitNode n t) tr ns) (foldl (\<lambda>t n. visitNode n t) tr' ns)"
  by (induction ns arbitrary: tr tr') (simp_all add: visitNode_same)

lemma expandNode_failed:
  "fetch x = Inl e \<Longrightarrow>
   expandNode fetch x tr =
     tr\<lparr>sess := (sess tr)\<lparr>console := console (sess tr) @ [ExpandAllNodeFailed x e]\<rparr>\<rparr>"
  by (simp add: expandNode_def)

lemma expandNode_same:
  assumes "sameTraversal tr tr'"
  shows "sameTraversal (expandNode fetch x tr) (expandNode fetch x tr')"
proof (cases "fetch x")
  case (Inl e)
  with assms show ?thesis by (simp add: expandNode_failed sameTraversal_def)
next
  case (Inr res)
  have "sameTraversal
      (tr\<lparr>sess := (sess tr)\<lparr>extraGraphState :=
          mergeInto (extraGraphState (sess tr)) (orEmpty (nodes res)) (orEmpty (edges res))\<rparr>\<rparr>)
      (tr'\<lparr>sess := (sess tr')\<lparr>extraGraphState :=
          mergeInto (extraGraphState (sess tr')) (orEmpty (nodes res)) (orEmpty (edges res))\<rparr>\<rparr>)"
    using assms by (simp add: sameTraversal_def)
  from visitNodes_same[OF this] Inr show ?thesis by (simp add: expandNode_def)
qed

lemma expandNodes_skip_failed:
  "sameTraversal tr tr' \<Longrightarrow>
   sameTraversal (foldl (\<lambda>t x. expandNode fetch x t) tr xs)
     (foldl (\<lambda>t x. expandNode fetch x t) tr' (filter (\<lambda>y. \<not> isl (fetch y)) xs))"
proof (induction xs arbitrary: tr tr')
  case Nil
  then show ?case by simp
next
  case (Cons x xs)
  show ?case
  proof (cases "fetch x")
    case (Inl e)
    have "sameTraversal (expandNode fetch x tr) tr'"
      using Cons.prems Inl by (simp add: expandNode_failed sameTraversal_def)
    from Cons.IH[OF this] Inl show ?thesis by simp
  next
    case (Inr res)
    from Cons.IH[OF expandNode_same[OF Cons.prems, of fetch x] ] Inr show ?thesis by simp
  qed
qed

lemma expandLevel_skip_failed:
  "sameTraversal (expandLevel fetch settle frontier tr)
     (expandLevel fetch (\<lambda>xs. filter (\<lambda>y. \<not> isl (fetch y)) (settle xs)) frontier tr)"
  unfolding expandLevel_def
  by (rule expandNodes_skip_failed) (simp add: sameTraversal_def)

lemma console_visitNodes [simp]:
  "console (sess (foldl (\<lambda>t n. visitNode n t) tr ns)) = console (sess tr)"
  by simp

lemma expandNodes_console:
  "console (sess (foldl (\<lambda>t x. expandNode fetch x t) tr xs)) =
     console (sess tr) @
       concat (map (\<lambda>x. case fetch x of Inl e \<Rightarrow> [ExpandAllNodeFailed x e] | Inr g \<Rightarrow> []) xs)"
  by (induction xs arbitrary: tr) (auto simp: expandNode_def split: sum.splits)

lemma mergeInto_normal: "normalGraph (mergeInto prev ns es)"
  by (simp add: normalGraph_def mergeInto_def dedupeById_firstSeen firstSeen_idem)

lemma mergeInto_nothing: "normalGraph g \<Longrightarrow> mergeInto g [] [] = g"
  by (cases g) (auto simp: normalGraph_def mergeInto_def orEmpty_def split: option.splits)

lemma visitNodes_extraGraph [simp]:
  "extraGraphState (sess (foldl (\<lambda>t n. visitNode n t) tr ns)) = extraGraphState (sess tr)"
  by simp

lemma expandNode_normal:
  "normalGraph (extraGraphState (sess tr)) \<Longrightarrow>
   normalGraph (extraGraphState (sess (expandNode fetch x tr)))"
  by (auto simp: expandNode_def mergeInto_normal split: sum.splits)

lemma expandNode_recover:
  assumes "sameTraversal tr tr'" and "normalGraph (extraGraphState (sess tr))"
  shows "sameTraversal (expandNode fetch x tr) (expandNode (failuresAsEmpty fetch) x tr')"
proof (cases "fetch x")
  case (Inl e)
  have "expandNode (failuresAsEmpty fetch) x tr' =
        tr'\<lparr>sess := (sess tr')\<lparr>extraGraphState := mergeInto (extraGraphState (sess tr')) [] []\<rparr>\<rparr>"
    using Inl by (simp add: expandNode_def failuresAsEmpty_def orEmpty_def)
  moreover have "mergeInto (extraGraphState (sess tr')) [] [] = extraGraphState (sess tr')"
    using assms by (simp add: sameTraversal_def mergeInto_nothing)
  ultimately show ?thesis
    using assms Inl by (simp add: expandNode_failed sameTraversal_def)
next
  case (Inr res)
  then have "expandNode (failuresAsEmpty fetch) x tr' = expandNode fetch x tr'"
    by (simp add: expandNode_def failuresAsEmpty_def)
  with expandNode_same[OF assms(1), of fetch x] show ?thesis by simp
qed

lemma expandNodes_recover:
  "sameTraversal tr tr' \<Longrightarrow> normalGraph (extraGraphState (sess tr)) \<Longrightarrow>
   sameTraversal (foldl (\<lambda>t x. expandNode fetch x t) tr xs)
     (foldl (\<lambda>t x. expandNode (failuresAsEmpty fetch) x t) tr' xs)
   \<and> normalGraph (extraGraphState (sess (foldl (\<lambda>t x. expandNode fetch x t) tr xs)))"
proof (induction xs arbitrary: tr tr')
  case Nil
  then show ?case by simp
next
  case (Cons x xs)
  from Cons.IH[OF expandNode_recover[OF Cons.prems, of fetch x] expandNode_normal[OF Cons.prems(2)] ]
  show ?case by simp
qed

lemma expandLevel_recover:
  assumes "sameTraversal tr tr'" and "normalGraph (extraGraphState (sess tr))"
  shows "sameTraversal (expandLevel fetch settle frontier tr) (expandLevel (failuresAsEmpty fetch) settle frontier tr')"
    and "normalGraph (extraGraphState (sess (expandLevel fetch settle frontier tr)))"
proof -
  let ?a = "tr\<lparr>nextFrontier := [], sess := (sess tr)\<lparr>requests := requests (sess tr) @ [frontier]\<rparr>\<rparr>"
  let ?b = "tr'\<lparr>nextFrontier := [], sess := (sess tr')\<lparr>requests := requests (sess tr') @ [frontier]\<rparr>\<rparr>"
  have s: "sameTraversal ?a ?b" using assms(1) by (simp add: sameTraversal_def)
  have n: "normalGraph (extraGraphState (sess ?a))" using assms(2) by simp
  from expandNodes_recover[OF s n, of fetch "settle frontier"]
  show "sameTraversal (expandLevel fetch settle frontier tr) (expandLevel (failuresAsEmpty fetch) settle frontier tr')"
    and "normalGraph (extraGraphState (sess (expandLevel fetch settle frontier tr)))"
    by (simp_all add: expandLevel_def)
qed

lemma expandLoop_recover:
  assumes "sameTraversal tr tr'" and "normalGraph (extraGraphState (sess tr))"
    and "expandLoop fetch settle maxDepth frontier depth tr = (f1, d1, t1)"
    and "expandLoop (failuresAsEmpty fetch) settle maxDepth frontier depth tr' = (f2, d2, t2)"
  shows "f1 = f2 \<and> d1 = d2 \<and> sameTraversal t1 t2"
  using assms
proof (induction fetch settle maxDepth frontier depth tr arbitrary: tr' rule: expandLoop.induct)
  case (1 fetch settle maxDepth frontier depth tr)
  show ?case
  proof (cases "frontier \<noteq> [] \<and> depth < maxDepth")
    case True
    let ?l = "expandLevel fetch settle frontier tr"
    let ?l' = "expandLevel (failuresAsEmpty fetch) settle frontier tr'"
    note R = expandLevel_recover[OF "1.prems"(1,2), of fetch settle frontier]
    have nf: "nextFrontier ?l' = nextFrontier ?l"
      using R(1) by (simp add: sameTraversal_def)
    have run1: "expandLoop fetch settle maxDepth (nextFrontier ?l) (depth + 1) ?l = (f1, d1, t1)"
      using "1.prems"(3) True by (simp add: expandLoop.simps[of fetch settle maxDepth frontier depth tr])
    have run2: "expandLoop (failuresAsEmpty fetch) settle maxDepth (nextFrontier ?l) (depth + 1) ?l' = (f2, d2, t2)"
      using "1.prems"(4) True nf
      by (simp add: expandLoop.simps[of "failuresAsEmpty fetch" settle maxDepth frontier depth tr'])
    from "1.IH"[OF True R(1) R(2) run1 run2] show ?thesis .
  next
    case False
    then have "expandLoop fetch settle maxDepth frontier depth tr = (frontier, depth, tr)"
      and "expandLoop (failuresAsEmpty fetch) settle maxDepth frontier depth tr' = (frontier, depth, tr')"
      by (auto simp: expandLoop.simps[of fetch settle maxDepth frontier depth tr]
            expandLoop.simps[of "failuresAsEmpty fetch" settle maxDepth frontier depth tr'])
    with "1.prems" show ?thesis by simp
  qed
qed

lemma expandTraversal_recover:
  assumes "normalGraph (extraGraphState st)"
    and "expandTraversal fetch settle cl d nodeId st = (f1, d1, t1)"
    and "expandTraversal (failuresAsEmpty fetch) settle cl d nodeId st = (f2, d2, t2)"
  shows "f1 = f2 \<and> d1 = d2 \<and> sameTraversal t1 t2"
proof -
  let ?tr0 = "\<lparr>visited = set (filter truthy (map dataId (orEmpty (nodes (extraGraph cl))))),
        nextFrontier = [], sess = st\<lparr>isExpanding := True\<rparr>\<rparr>"
  have s: "sameTraversal ?tr0 ?tr0" by (simp add: sameTraversal_def)
  have n: "normalGraph (extraGraphState (sess ?tr0))" using assms(1) by simp
  from expandLoop_recover[OF s n assms(2)[unfolded expandTraversal_def]
      assms(3)[unfolded expandTraversal_def] ]
  show ?thesis .
qed

lemma expandSelectedNodeRecursively_recover:
  assumes "normalGraph (extraGraphState st)"
  shows "extraGraphState (expandSelectedNodeRecursively fetch settle outcome cl maxDepth st)
       = extraGraphState (expandSelectedNodeRecursively (failuresAsEmpty fetch) settle outcome cl maxDepth st)"
proof (cases "selectedNodeId cl")
  case None
  then show ?thesis by (simp add: expandSelectedNodeRecursively_def)
next
  case (Some n)
  show ?thesis
  proof (cases "n = []")
    case True
    with Some show ?thesis by (simp add: expandSelectedNodeRecursively_def)
  next
    case False
    let ?d = "case maxDepth of None \<Rightarrow> 3 | Some d \<Rightarrow> d"
    obtain f1 d1 t1 where r1: "expandTraversal fetch settle cl ?d n st = (f1, d1, t1)"
      by (cases "expandTraversal fetch settle cl ?d n st") auto
    obtain f2 d2 t2 where r2: "expandTraversal (failuresAsEmpty fetch) settle cl ?d n st = (f2, d2, t2)"
      by (cases "expandTraversal (failuresAsEmpty fetch) settle cl ?d n st") auto
    from expandTraversal_recover[OF assms r1 r2]
    have "extraGraphState (sess t1) = extraGraphState (sess t2)"
      by (simp add: sameTraversal_def)
    with Some False r1 r2 show ?thesis
      by (simp add: expandSelectedNodeRecursively_def split: option.splits)
  qed
qed

text \<open>
  Claim C8. A failed fetch is caught. In \<^verbatim>\<open>expandSelectedNode\<close> it leaves the state
  as it was but for the request issued, the error written to the console and the
  cleared \<^verbatim>\<open>isExpanding\<close> flag: \<^verbatim>\<open>extraGraph\<close> is unchanged. In the recursive
  expansion the callback of a node whose fetch fails only writes a warning, so a
  level, in whatever order its fetches settle, ends with the \<^verbatim>\<open>visited\<close> set, the next frontier and the \<^verbatim>\<open>extraGraph\<close> it
  would have had with the failing nodes left out of its frontier, and with one warning
  per failing node; the responses of the other nodes are merged. From a state whose
  \<^verbatim>\<open>extraGraph\<close> is as the updater leaves it, the whole traversal ends with the
  frontier, the depth, the \<^verbatim>\<open>visited\<close> set and the \<^verbatim>\<open>extraGraph\<close> it would have had
  if every failing fetch had returned a response without nodes and edges: the later
  levels run as they would have.
\<close>

theorem fetch_failure_is_not_fatal:
  "(selectedNodeId cl = Some nodeId \<and> nodeId \<noteq> [] \<and> fetch nodeId = Inl e \<longrightarrow>
      expandSelectedNode fetch outcome cl st =
        st\<lparr>requests := requests st @ [ [nodeId] ],
           console := console st @ [ExpandFailed e],
           isExpanding := False\<rparr>)
   \<and> (fetch x = Inl e \<longrightarrow>
        expandNode fetch x tr =
          tr\<lparr>sess := (sess tr)\<lparr>console := console (sess tr) @ [ExpandAllNodeFailed x e]\<rparr>\<rparr>)
   \<and> visited (expandLevel fetch settle frontier tr)
       = visited (expandLevel fetch (\<lambda>xs. filter (\<lambda>y. \<not> isl (fetch y)) (settle xs)) frontier tr)
   \<and> nextFrontier (expandLevel fetch settle frontier tr)
       = nextFrontier (expandLevel fetch (\<lambda>xs. filter (\<lambda>y. \<not> isl (fetch y)) (settle xs)) frontier tr)
   \<and> extraGraphState (sess (expandLevel fetch settle frontier tr))
       = extraGraphState (sess (expandLevel fetch (\<lambda>xs. filter (\<lambda>y. \<not> isl (fetch y)) (settle xs)) frontier tr))
   \<and> console (sess (expandLevel fetch settle frontier tr))
       = console (sess tr) @
           concat (map (\<lambda>y. case fetch y of Inl err \<Rightarrow> [ExpandAllNodeFailed y err] | Inr g \<Rightarrow> [])
                    (settle frontier))
   \<and> (normalGraph (extraGraphState st) \<longrightarrow>
        fst (expandTraversal fetch settle cl d nodeId st)
          = fst (expandTraversal (failuresAsEmpty fetch) settle cl d nodeId st)
      \<and> fst (snd (expandTraversal fetch settle cl d nodeId st))
          = fst (snd (expandTraversal (failuresAsEmpty fetch) settle cl d nodeId st))
      \<and> visited (snd (snd (expandTraversal fetch settle cl d nodeId st)))
          = visited (snd (snd (expandTraversal (failuresAsEmpty fetch) settle cl d nodeId st)))
      \<and> extraGraphState (sess (snd (snd (expandTraversal fetch settle cl d nodeId st))))
          = extraGraphState (sess (snd (snd (expandTraversal (failuresAsEmpty fetch) settle cl d nodeId st))))
      \<and> extraGraphState (expandSelectedNodeRecursively fetch settle outcome cl maxDepth st)
          = extraGraphState (expandSelectedNodeRecursively (failuresAsEmpty fetch) settle outcome cl maxDepth st))"
proof -
  have one: "expandSelectedNode fetch outcome cl st =
        st\<lparr>requests := requests st @ [ [nodeId] ],
           console := console st @ [ExpandFailed e],
           isExpanding := False\<rparr>"
    if "selectedNodeId cl = Some nodeId" "nodeId \<noteq> []" "fetch nodeId = Inl e"
    using that by (simp add: expandSelectedNode_def)
  have node: "expandNode fetch x tr =
          tr\<lparr>sess := (sess tr)\<lparr>console := console (sess tr) @ [ExpandAllNodeFailed x e]\<rparr>\<rparr>"
    if "fetch x = Inl e"
    using that by (rule expandNode_failed)
  note level = expandLevel_skip_failed
    [where fetch = fetch and settle = settle and frontier = frontier and tr = tr,
     unfolded sameTraversal_def]
  have cons: "console (sess (expandLevel fetch settle frontier tr))
       = console (sess tr) @
           concat (map (\<lambda>y. case fetch y of Inl err \<Rightarrow> [ExpandAllNodeFailed y err] | Inr g \<Rightarrow> [])
                    (settle frontier))"
    by (simp add: expandLevel_def expandNodes_console)
  have run: "fst (expandTraversal fetch settle cl d nodeId st)
          = fst (expandTraversal (failuresAsEmpty fetch) settle cl d nodeId st)
      \<and> fst (snd (expandTraversal fetch settle cl d nodeId st))
          = fst (snd (expandTraversal (failuresAsEmpty fetch) settle cl d nodeId st))
      \<and> visited (snd (snd (expandTraversal fetch settle cl d nodeId st)))
          = visited (snd (snd (expandTraversal (failuresAsEmpty fetch) settle cl d nodeId st)))
      \<and> extraGraphState (sess (snd (snd (expandTraversal fetch settle cl d nodeId st))))
          = extraGraphState (sess (snd (snd (expandTraversal (failuresAsEmpty fetch) settle cl d nodeId st))))"
    if n: "normalGraph (extraGraphState st)"
  proof -
    obtain f1 d1 t1 where r1: "expandTraversal fetch settle cl d nodeId st = (f1, d1, t1)"
      by (cases "expandTraversal fetch settle cl d nodeId st") auto
    obtain f2 d2 t2 where r2: "expandTraversal (failuresAsEmpty fetch) settle cl d nodeId st = (f2, d2, t2)"
      by (cases "expandTraversal (failuresAsEmpty fetch) settle cl d nodeId st") auto
    from expandTraversal_recover[OF n r1 r2] show ?thesis
      by (simp add: r1 r2 sameTraversal_def)
  qed
  note whole = expandSelectedNodeRecursively_recover
    [where st = st and fetch = fetch and settle = settle and outcome = outcome and cl = cl
       and maxDepth = maxDepth]
  from one node level cons run whole show ?thesis by simp
qed

lemma flaky_run:
  "expandTraversal fetchFlaky inIssueOrder (browsing (Some ''A'') emptyGraph) 2 ''A'' emptySession
     = ([''D''], 2,
        \<lparr>visited = {Some ''B'', Some ''C'', Some ''D''}, nextFrontier = [''D''],
         sess = \<lparr>extraGraphState = \<lparr>nodes = Some [sampleNode ''B'', sampleNode ''C'', sampleNode ''D''],
                                     edges = Some []\<rparr>,
                 isExpanding = True,
                 console = [ExpandAllNodeFailed ''B'' (FetchError ''HTTP error! status: 500'')],
                 requests = [ [''A''], [''B'', ''C''] ]\<rparr>\<rparr>)"
  unfolding expandTraversal_def
  apply (subst expandLoop.simps)
  apply (simp add: expandLevel_def expandNode_def visitNode_def setAdd_def mergeInto_def
        orEmpty_def emptyGraph_def emptySession_def browsing_def fetchFlaky_def inIssueOrder_def
        dedupeById_def elemId_def dataId_def truthy_def sampleNode_def sampleLabelled_def
        Let_def insert_commute)
  apply (subst expandLoop.simps)
  apply (simp add: expandLevel_def expandNode_def visitNode_def setAdd_def mergeInto_def
        orEmpty_def emptyGraph_def emptySession_def browsing_def fetchFlaky_def inIssueOrder_def
        dedupeById_def elemId_def dataId_def truthy_def sampleNode_def sampleLabelled_def
        Let_def insert_commute)
  apply (subst expandLoop.simps)
  apply (simp add: insert_commute)
  done

theorem fetch_failure_is_not_fatal_witness:
  "selectedNodeId (browsing (Some ''B'') emptyGraph) = Some ''B''
   \<and> ''B'' \<noteq> []
   \<and> fetchFlaky ''B'' = Inl (FetchError ''HTTP error! status: 500'')
   \<and> expandSelectedNode fetchFlaky None (browsing (Some ''B'') emptyGraph) emptySession
       = emptySession\<lparr>requests := [ [''B''] ],
                       console := [ExpandFailed (FetchError ''HTTP error! status: 500'')],
                       isExpanding := False\<rparr>
   \<and> normalGraph (extraGraphState emptySession)
   \<and> nodes (extraGraphState (expandSelectedNodeRecursively fetchFlaky inIssueOrder None
               (browsing (Some ''A'') emptyGraph) (Some 2) emptySession))
       = Some [sampleNode ''B'', sampleNode ''C'', sampleNode ''D'']
   \<and> nodes (extraGraphState (expandSelectedNodeRecursively (failuresAsEmpty fetchFlaky) inIssueOrder None
               (browsing (Some ''A'') emptyGraph) (Some 2) emptySession))
       = Some [sampleNode ''B'', sampleNode ''C'', sampleNode ''D'']"
proof -
  have h: "selectedNodeId (browsing (Some ''B'') emptyGraph) = Some ''B''" "''B'' \<noteq> []"
    "fetchFlaky ''B'' = Inl (FetchError ''HTTP error! status: 500'')"
    by (simp_all add: browsing_def fetchFlaky_def)
  have n: "normalGraph (extraGraphState emptySession)"
    by (simp add: normalGraph_def emptySession_def emptyGraph_def dedupeById_def)
  note T = fetch_failure_is_not_fatal
    [where cl = "browsing (Some ''B'') emptyGraph" and nodeId = "''B''" and fetch = fetchFlaky
       and e = "FetchError ''HTTP error! status: 500''" and outcome = None and st = emptySession]
  note U = fetch_failure_is_not_fatal
    [where cl = "browsing (Some ''A'') emptyGraph" and fetch = fetchFlaky and outcome = None
       and st = emptySession and maxDepth = "Some 2",
     THEN conjunct2, THEN conjunct2, THEN conjunct2, THEN conjunct2, THEN conjunct2,
     THEN conjunct2, THEN mp, OF n]
  have one: "expandSelectedNode fetchFlaky None (browsing (Some ''B'') emptyGraph) emptySession
       = emptySession\<lparr>requests := [ [''B''] ],
                       console := [ExpandFailed (FetchError ''HTTP error! status: 500'')],
                       isExpanding := False\<rparr>"
    using T[THEN conjunct1] h by (simp add: emptySession_def)
  have ev: "nodes (extraGraphState (expandSelectedNodeRecursively fetchFlaky inIssueOrder None
               (browsing (Some ''A'') emptyGraph) (Some 2) emptySession))
       = Some [sampleNode ''B'', sampleNode ''C'', sampleNode ''D'']"
    by (simp add: expandSelectedNodeRecursively_def flaky_run)
  have same: "extraGraphState (expandSelectedNodeRecursively fetchFlaky inIssueOrder None
               (browsing (Some ''A'') emptyGraph) (Some 2) emptySession)
       = extraGraphState (expandSelectedNodeRecursively (failuresAsEmpty fetchFlaky) inIssueOrder None
               (browsing (Some ''A'') emptyGraph) (Some 2) emptySession)"
    by (rule U[THEN conjunct2, THEN conjunct2, THEN conjunct2, THEN conjunct2])
  from ev same
  have ev': "nodes (extraGraphState (expandSelectedNodeRecursively (failuresAsEmpty fetchFlaky) inIssueOrder None
               (browsing (Some ''A'') emptyGraph) (Some 2) emptySession))
       = Some [sampleNode ''B'', sampleNode ''C'', sampleNode ''D'']"
    by simp
  from h one n ev ev' show ?thesis by (intro conjI)
qed

end
